theory Spec2Isabelle
  imports Complex_Main "HOL-Library.Word"
begin

section \<open>JavaScript numbers\<close>

text \<open>
  The program computes with JavaScript Numbers, which are IEEE doubles.  A finite
  Number is modelled by the real number it denotes, and the three non-finite values
  are separate constructors.  The integers of this program (bytes, sums of bytes and
  of squared byte differences, indices and sizes) are far below \<open>2\<^sup>5\<^sup>3\<close>: they are
  doubles, and sums, differences and products of them are exact.  A result that need
  not be an integer is rounded to the nearest double by \<open>fl\<close> below wherever the
  program compares it, takes its floor or stores it: the rates and drops of
  \<^verbatim>\<open>determineBestK\<close> and all of \<^verbatim>\<open>pixelDetect.js\<close>.  In \<^verbatim>\<open>medianCut\<close> the quotient
  \<open>sum / n\<close> goes to \<^verbatim>\<open>Math.round\<close> at once; it is a quotient of integers with
  \<open>n\<close> below \<open>2\<^sup>3\<^sup>2\<close>, whose rounding cannot move it across a half, and it is taken
  exactly.  The squared distance of \<^verbatim>\<open>findNearestColor\<close> is taken exactly as well: it is
  an integer for a palette of integers, which is what \<^verbatim>\<open>medianCut\<close> returns and what the
  statements about the nearest palette colour are about.  The sign of zero is not
  modelled: the only divisors in the program are array lengths, sums of squares and
  medians of positive numbers, which are never \<open>-0\<close>.
\<close>

datatype jsnum = Num real | PosInf | NegInf | NaN

fun js_neg :: "jsnum \<Rightarrow> jsnum" where
  "js_neg (Num a) = Num (- a)"
| "js_neg PosInf = NegInf"
| "js_neg NegInf = PosInf"
| "js_neg NaN = NaN"

fun js_add :: "jsnum \<Rightarrow> jsnum \<Rightarrow> jsnum" where
  "js_add (Num a) (Num b) = Num (a + b)"
| "js_add NaN y = NaN"
| "js_add x NaN = NaN"
| "js_add PosInf NegInf = NaN"
| "js_add NegInf PosInf = NaN"
| "js_add PosInf y = PosInf"
| "js_add x PosInf = PosInf"
| "js_add NegInf y = NegInf"
| "js_add x NegInf = NegInf"

definition js_sub :: "jsnum \<Rightarrow> jsnum \<Rightarrow> jsnum" where
  "js_sub x y = js_add x (js_neg y)"

fun js_mul :: "jsnum \<Rightarrow> jsnum \<Rightarrow> jsnum" where
  "js_mul (Num a) (Num b) = Num (a * b)"
| "js_mul NaN y = NaN"
| "js_mul x NaN = NaN"
| "js_mul PosInf (Num b) = (if b = 0 then NaN else if 0 < b then PosInf else NegInf)"
| "js_mul NegInf (Num b) = (if b = 0 then NaN else if 0 < b then NegInf else PosInf)"
| "js_mul (Num a) PosInf = (if a = 0 then NaN else if 0 < a then PosInf else NegInf)"
| "js_mul (Num a) NegInf = (if a = 0 then NaN else if 0 < a then NegInf else PosInf)"
| "js_mul PosInf PosInf = PosInf"
| "js_mul NegInf NegInf = PosInf"
| "js_mul PosInf NegInf = NegInf"
| "js_mul NegInf PosInf = NegInf"

text \<open>The quotient \<open>x / y\<close>; a zero divisor is \<open>+0\<close>.\<close>

fun js_div :: "jsnum \<Rightarrow> jsnum \<Rightarrow> jsnum" where
  "js_div (Num a) (Num b) =
     (if b = 0 then (if a = 0 then NaN else if 0 < a then PosInf else NegInf)
      else Num (a / b))"
| "js_div NaN y = NaN"
| "js_div x NaN = NaN"
| "js_div (Num a) PosInf = Num 0"
| "js_div (Num a) NegInf = Num 0"
| "js_div PosInf (Num b) = (if 0 \<le> b then PosInf else NegInf)"
| "js_div NegInf (Num b) = (if 0 \<le> b then NegInf else PosInf)"
| "js_div x y = NaN"

text \<open>The comparison \<open>x < y\<close>: false whenever an operand is \<open>NaN\<close>.\<close>

fun js_lt :: "jsnum \<Rightarrow> jsnum \<Rightarrow> bool" where
  "js_lt (Num a) (Num b) = (a < b)"
| "js_lt NaN y = False"
| "js_lt x NaN = False"
| "js_lt x NegInf = False"
| "js_lt PosInf y = False"
| "js_lt NegInf y = True"
| "js_lt x PosInf = True"

text \<open>\<^verbatim>\<open>Math.round\<close>: the nearest integer, a half rounded towards \<open>+\<infinity>\<close>.\<close>

fun js_round :: "jsnum \<Rightarrow> jsnum" where
  "js_round (Num a) = Num (of_int \<lfloor>a + 1 / 2\<rfloor>)"
| "js_round x = x"

definition ofInt :: "int \<Rightarrow> jsnum" where
  "ofInt i = Num (of_int i)"

subsection \<open>Rounding to a double and to a single\<close>

text \<open>The nearest integer, a half to the even neighbour.\<close>

definition roundHalfEven :: "real \<Rightarrow> int" where
  "roundHalfEven a =
     (let f = \<lfloor>a\<rfloor>; d = a - of_int f
      in if d < 1 / 2 then f else if 1 / 2 < d then f + 1 else if even f then f else f + 1)"

text \<open>
  Rounding to \<open>p\<close> significant binary digits, to the nearest such number and to the
  even one of two nearest: with \<open>2\<^sup>e \<le> |x| < 2\<^sup>e\<^sup>+\<^sup>1\<close> the result is a multiple of
  \<open>2\<^sup>e\<^sup>+\<^sup>1\<^sup>-\<^sup>p\<close>.  The range of the exponent is not bounded: no value of
  the program comes near the largest or the smallest double.
\<close>

definition roundToBits :: "nat \<Rightarrow> real \<Rightarrow> real" where
  "roundToBits p x =
     (if x = 0 then 0
      else let e = \<lfloor>log 2 \<bar>x\<bar>\<rfloor>;
               u = 2 powr (real_of_int e + 1 - real p)
           in real_of_int (roundHalfEven (x / u)) * u)"

text \<open>
  The double nearest to a real number: 53 significant digits.  An integer is left as it
  is, every integer of the program being a double.
\<close>

definition fl :: "real \<Rightarrow> real" where
  "fl x = (if real_of_int \<lfloor>x\<rfloor> = x then x else roundToBits 53 x)"

text \<open>The store of a double into a \<^verbatim>\<open>Float32Array\<close>: 24 significant digits.\<close>

definition f32 :: "real \<Rightarrow> real" where
  "f32 x = roundToBits 24 x"

text \<open>The operations \<open>+\<close>, \<open>-\<close>, \<open>*\<close>, \<open>/\<close> and \<^verbatim>\<open>Math.sqrt\<close> on finite doubles.\<close>

definition dadd :: "real \<Rightarrow> real \<Rightarrow> real" where
  "dadd x y = fl (x + y)"

definition dsub :: "real \<Rightarrow> real \<Rightarrow> real" where
  "dsub x y = fl (x - y)"

definition dmul :: "real \<Rightarrow> real \<Rightarrow> real" where
  "dmul x y = fl (x * y)"

definition ddiv :: "real \<Rightarrow> real \<Rightarrow> real" where
  "ddiv x y = fl (x / y)"

definition dsqrt :: "real \<Rightarrow> real" where
  "dsqrt x = fl (sqrt x)"

text \<open>The rounding of a Number: the non-finite values are kept.\<close>

fun js_fl :: "jsnum \<Rightarrow> jsnum" where
  "js_fl (Num a) = Num (fl a)"
| "js_fl x = x"

section \<open>Colours and palettes\<close>

text \<open>
  A pixel colour \<^verbatim>\<open>[data[i], data[i + 1], data[i + 2]]\<close> is a triple of integers read from
  the byte buffer.  A palette colour is a triple of Numbers: the presets are integer
  literals, and \<^verbatim>\<open>medianCut\<close> returns \<^verbatim>\<open>Math.round\<close> of a quotient.
\<close>

type_synonym rgb = "int \<times> int \<times> int"
type_synonym pcolor = "jsnum \<times> jsnum \<times> jsnum"

text \<open>\<^verbatim>\<open>a[c]\<close> for a channel index \<open>c\<close> of 0, 1 or 2.\<close>

fun chan :: "nat \<Rightarrow> rgb \<Rightarrow> int" where
  "chan c (r, g, b) = (if c = 0 then r else if c = 1 then g else b)"

section \<open>Median cut (\<^verbatim>\<open>paletteApply.js\<close>)\<close>

subsection \<open>\<^verbatim>\<open>getColorRanges\<close>\<close>

fun rangeLoop :: "rgb list \<Rightarrow> int \<Rightarrow> int \<Rightarrow> int \<Rightarrow> int \<Rightarrow> int \<Rightarrow> int \<Rightarrow> rgb" where
  "rangeLoop [] minR maxR minG maxG minB maxB = (maxR - minR, maxG - minG, maxB - minB)"
| "rangeLoop ((r, g, b) # ps) minR maxR minG maxG minB maxB =
     rangeLoop ps (min minR r) (max maxR r) (min minG g) (max maxG g) (min minB b) (max maxB b)"

definition getColorRanges :: "rgb list \<Rightarrow> rgb" where
  "getColorRanges pixels =
     (if length pixels = 0 then (0, 0, 0) else rangeLoop pixels 255 0 255 0 255 0)"

text \<open>\<^verbatim>\<open>Math.max(...ranges)\<close> and \<^verbatim>\<open>ranges.indexOf(maxRange)\<close> on a three-element array.\<close>

fun maxOf3 :: "rgb \<Rightarrow> int" where
  "maxOf3 (r, g, b) = max r (max g b)"

fun indexOf3 :: "rgb \<Rightarrow> int \<Rightarrow> nat" where
  "indexOf3 (r, g, b) m = (if r = m then 0 else if g = m then 1 else 2)"

subsection \<open>The bucket with the largest range\<close>

text \<open>
  The loop keeps a reference to the chosen bucket and later looks it up with
  \<^verbatim>\<open>buckets.indexOf(largestBucket)\<close>, which compares array identities.  The arrays in
  \<^verbatim>\<open>buckets\<close> are pairwise different objects (the argument array and the fresh results of
  \<^verbatim>\<open>slice\<close>), so the reference is modelled by the position at which the loop met it;
  \<open>None\<close> is \<^verbatim>\<open>null\<close>.
\<close>

record selection =
  largestBucket :: "nat option"
  largestRange :: int
  largestChannel :: nat

fun selectLoop :: "rgb list list \<Rightarrow> nat \<Rightarrow> selection \<Rightarrow> selection" where
  "selectLoop [] i s = s"
| "selectLoop (bucket # rest) i s =
     (let ranges = getColorRanges bucket;
          maxRange = maxOf3 ranges;
          channel = indexOf3 ranges maxRange
      in selectLoop rest (Suc i)
           (if maxRange > largestRange s
            then \<lparr>largestBucket = Some i, largestRange = maxRange, largestChannel = channel\<rparr>
            else s))"

definition selectLargest :: "rgb list list \<Rightarrow> selection" where
  "selectLargest buckets =
     selectLoop buckets 0 \<lparr>largestBucket = None, largestRange = - 1, largestChannel = 0\<rparr>"

lemma selectLoop_index:
  "largestBucket (selectLoop bs i s) = Some idx \<Longrightarrow>
   largestBucket s = Some idx \<or> (i \<le> idx \<and> idx < i + length bs)"
proof (induction bs arbitrary: i s)
  case Nil
  then show ?case by simp
next
  case (Cons b bs)
  from Cons.prems Cons.IH show ?case
    by (fastforce simp: Let_def split: if_splits)
qed

lemma selectLargest_index:
  "largestBucket (selectLargest buckets) = Some idx \<Longrightarrow> idx < length buckets"
  unfolding selectLargest_def by (drule selectLoop_index) simp

subsection \<open>The splitting loop and \<^verbatim>\<open>medianCut\<close>\<close>

text \<open>
  \<^verbatim>\<open>Array.prototype.sort\<close> is stable, as is \<^const>\<open>sort_key\<close>; the comparator orders by the
  chosen channel.  \<^verbatim>\<open>splice(idx, 1, bucket1, bucket2)\<close> replaces the element at \<open>idx\<close> by
  the two halves.
\<close>

definition splitBucket :: "rgb list list \<Rightarrow> nat \<Rightarrow> nat \<Rightarrow> rgb list list" where
  "splitBucket buckets idx channel =
     (let sorted = sort_key (chan channel) (buckets ! idx);
          mid = length sorted div 2;
          bucket1 = take mid sorted;
          bucket2 = drop mid sorted
      in take idx buckets @ [bucket1, bucket2] @ drop (Suc idx) buckets)"

function splitLoop :: "rgb list list \<Rightarrow> int \<Rightarrow> rgb list list" where
  "splitLoop buckets numColors =
     (if int (length buckets) < numColors then
        (let s = selectLargest buckets in
         case largestBucket s of
           None \<Rightarrow> buckets
         | Some idx \<Rightarrow>
             if length (buckets ! idx) < 2 then buckets
             else splitLoop (splitBucket buckets idx (largestChannel s)) numColors)
      else buckets)"
  by pat_completeness auto
termination
proof (relation "measure (\<lambda>(buckets, numColors). nat (numColors - int (length buckets)))")
  show "wf (measure (\<lambda>(buckets, numColors). nat (numColors - int (length buckets))))"
    by simp
next
  fix buckets :: "rgb list list" and numColors :: int and s idx
  assume lt: "int (length buckets) < numColors"
    and s: "s = selectLargest buckets"
    and sel: "largestBucket s = Some idx"
  from s sel have "idx < length buckets"
    by (simp add: selectLargest_index)
  then have "length (splitBucket buckets idx (largestChannel s)) = Suc (length buckets)"
    by (simp add: splitBucket_def Let_def)
  with lt show "((splitBucket buckets idx (largestChannel s), numColors), (buckets, numColors))
      \<in> measure (\<lambda>(buckets, numColors). nat (numColors - int (length buckets)))"
    by simp
qed

declare splitLoop.simps [simp del]

text \<open>The average of a bucket: \<^verbatim>\<open>Math.round(sum / n)\<close> per channel; \<open>0 / 0\<close> is \<open>NaN\<close>.\<close>

definition averageBucket :: "rgb list \<Rightarrow> pcolor" where
  "averageBucket bucket =
     (let sumR = sum_list (map (chan 0) bucket);
          sumG = sum_list (map (chan 1) bucket);
          sumB = sum_list (map (chan 2) bucket);
          n = int (length bucket)
      in (js_round (js_div (ofInt sumR) (ofInt n)),
          js_round (js_div (ofInt sumG) (ofInt n)),
          js_round (js_div (ofInt sumB) (ofInt n))))"

definition medianCut :: "rgb list \<Rightarrow> int \<Rightarrow> pcolor list" where
  "medianCut pixels numColors = map averageBucket (splitLoop [pixels] numColors)"

section \<open>Image buffers\<close>

text \<open>
  An \<^verbatim>\<open>ImageData\<close> object: a \<^verbatim>\<open>Uint8ClampedArray\<close> of bytes with the dimensions.  The
  platform keeps the length of the array at \<open>4 * width * height\<close> with positive
  dimensions; \<open>validImage\<close> states this invariant.  Reading an element of the array
  gives its unsigned value; the functions below read \<^verbatim>\<open>data[i + 1]\<close> to \<^verbatim>\<open>data[i + 3]\<close> only
  for \<open>i\<close> a multiple of 4 below the length, which is in range for a valid image.
  The constructor \<^verbatim>\<open>new ImageData(array, w, h)\<close> checks that the array has \<open>4 * w * h\<close>
  elements, a positive number; the modelled functions pass it an array of that length
  whenever the input image is valid and the target dimensions are positive, and the
  check is left out.
\<close>

type_synonym byte = "8 word"

record imageData =
  data :: "byte list"
  width :: nat
  height :: nat

definition validImage :: "imageData \<Rightarrow> bool" where
  "validImage img \<longleftrightarrow>
     0 < width img \<and> 0 < height img \<and> length (data img) = 4 * width img * height img"

definition pixelAt :: "byte list \<Rightarrow> nat \<Rightarrow> rgb" where
  "pixelAt d i = (uint (d ! i), uint (d ! (i + 1)), uint (d ! (i + 2)))"

text \<open>
  Storing a Number into a \<^verbatim>\<open>Uint8ClampedArray\<close>: \<open>NaN\<close> becomes 0, the value is clamped
  to \<open>[0, 255]\<close> and rounded to the nearest integer, a half to the even neighbour.
\<close>

fun toUint8Clamp :: "jsnum \<Rightarrow> byte" where
  "toUint8Clamp (Num a) =
     (if a \<le> 0 then 0 else if 255 \<le> a then 255 else word_of_int (roundHalfEven a))"
| "toUint8Clamp PosInf = 255"
| "toUint8Clamp NegInf = 0"
| "toUint8Clamp NaN = 0"

section \<open>Nearest palette colour and palette application (\<^verbatim>\<open>paletteApply.js\<close>)\<close>

text \<open>The squared distance computed inside the loop of \<^verbatim>\<open>findNearestColor\<close>.\<close>

fun paletteDist :: "rgb \<Rightarrow> pcolor \<Rightarrow> jsnum" where
  "paletteDist (r, g, b) (pr, pg, pb) =
     (let dr = js_sub (ofInt r) pr;
          dg = js_sub (ofInt g) pg;
          db = js_sub (ofInt b) pb
      in js_add (js_add (js_mul dr dr) (js_mul dg dg)) (js_mul db db))"

text \<open>
  \<^verbatim>\<open>findNearestColor\<close>: \<open>minDist\<close> starts at \<open>Infinity\<close> and \<open>nearest\<close> at
  \<^verbatim>\<open>palette[0]\<close>, which is \<^verbatim>\<open>undefined\<close> (\<open>None\<close>) for an empty palette.
\<close>

fun nearestLoop :: "rgb \<Rightarrow> pcolor list \<Rightarrow> jsnum \<Rightarrow> pcolor option \<Rightarrow> pcolor option" where
  "nearestLoop color [] minDist nearest = nearest"
| "nearestLoop color (paletteColor # rest) minDist nearest =
     (let dist = paletteDist color paletteColor
      in if js_lt dist minDist then nearestLoop color rest dist (Some paletteColor)
         else nearestLoop color rest minDist nearest)"

definition findNearestColor :: "rgb \<Rightarrow> pcolor list \<Rightarrow> pcolor option" where
  "findNearestColor color palette =
     nearestLoop color palette PosInf (case palette of [] \<Rightarrow> None | p # ps \<Rightarrow> Some p)"

text \<open>
  Reading \<^verbatim>\<open>nearest[0]\<close> when \<open>nearest\<close> is \<^verbatim>\<open>undefined\<close> throws a \<^verbatim>\<open>TypeError\<close>, which
  nothing in the module catches.  A typed array of negative length throws a
  \<^verbatim>\<open>RangeError\<close>.
\<close>

datatype error = TypeError | RangeError

text \<open>
  The mapping loop, the same text in \<^verbatim>\<open>quantizeImage\<close> (lines 27 to 35) and in
  \<^verbatim>\<open>applyPalette\<close> (lines 159 to 167).  A store beyond the end of a typed array is
  ignored, as with list update.
\<close>

function mapLoop :: "byte list \<Rightarrow> pcolor list \<Rightarrow> nat \<Rightarrow> byte list \<Rightarrow> error + byte list" where
  "mapLoop d palette i outputData =
     (if i < length d then
        (case findNearestColor (pixelAt d i) palette of
           None \<Rightarrow> Inl TypeError
         | Some nearest \<Rightarrow>
             mapLoop d palette (i + 4)
               (outputData
                  [i := toUint8Clamp (fst nearest),
                   i + 1 := toUint8Clamp (fst (snd nearest)),
                   i + 2 := toUint8Clamp (snd (snd nearest)),
                   i + 3 := d ! (i + 3)]))
      else Inr outputData)"
  by pat_completeness auto
termination
  by (relation "measure (\<lambda>(d, palette, i, outputData). length d - i)") auto

declare mapLoop.simps [simp del]

definition applyPalette :: "imageData \<Rightarrow> pcolor list \<Rightarrow> error + imageData" where
  "applyPalette imageData palette =
     (case mapLoop (data imageData) palette 0 (replicate (length (data imageData)) 0) of
        Inl e \<Rightarrow> Inl e
      | Inr outputData \<Rightarrow>
          Inr \<lparr>data = outputData, width = width imageData, height = height imageData\<rparr>)"

section \<open>Quantisation (\<^verbatim>\<open>paletteApply.js\<close>)\<close>

function extractPixels :: "byte list \<Rightarrow> nat \<Rightarrow> rgb list \<Rightarrow> rgb list" where
  "extractPixels d i pixels =
     (if i < length d then extractPixels d (i + 4) (pixels @ [pixelAt d i]) else pixels)"
  by pat_completeness auto
termination
  by (relation "measure (\<lambda>(d, i, pixels). length d - i)") auto

declare extractPixels.simps [simp del]

definition quantizeImage :: "imageData \<Rightarrow> int \<Rightarrow> error + imageData" where
  "quantizeImage imageData numColors =
     (let pixels = extractPixels (data imageData) 0 [];
          palette = medianCut pixels numColors
      in case mapLoop (data imageData) palette 0 (replicate (length (data imageData)) 0) of
           Inl e \<Rightarrow> Inl e
         | Inr outputData \<Rightarrow>
             Inr \<lparr>data = outputData, width = width imageData, height = height imageData\<rparr>)"

section \<open>Choice of the number of colours (\<^verbatim>\<open>paletteApply.js\<close>)\<close>

function samplePixels :: "byte list \<Rightarrow> nat \<Rightarrow> rgb list \<Rightarrow> rgb list" where
  "samplePixels d i pixels =
     (if i < length d then samplePixels d (i + 16) (pixels @ [pixelAt d i]) else pixels)"
  by pat_completeness auto
termination
  by (relation "measure (\<lambda>(d, i, pixels). length d - i)") auto

declare samplePixels.simps [simp del]

text \<open>The distortion of one palette: the inner loop over the sampled pixels.\<close>

fun totalDistLoop :: "rgb list \<Rightarrow> pcolor list \<Rightarrow> jsnum \<Rightarrow> error + jsnum" where
  "totalDistLoop [] palette totalDist = Inr totalDist"
| "totalDistLoop (pixel # rest) palette totalDist =
     (case findNearestColor pixel palette of
        None \<Rightarrow> Inl TypeError
      | Some nearest \<Rightarrow> totalDistLoop rest palette (js_add totalDist (paletteDist pixel nearest)))"

function distortionLoop :: "rgb list \<Rightarrow> int \<Rightarrow> int \<Rightarrow> jsnum list \<Rightarrow> error + jsnum list" where
  "distortionLoop pixels maxK k distortions =
     (if k \<le> min maxK 32 then
        (case totalDistLoop pixels (medianCut pixels k) (Num 0) of
           Inl e \<Rightarrow> Inl e
         | Inr totalDist \<Rightarrow> distortionLoop pixels maxK (k + 1) (distortions @ [totalDist]))
      else Inr distortions)"
  by pat_completeness auto
termination
  by (relation "measure (\<lambda>(pixels, maxK, k, distortions). nat (min maxK 32 + 1 - k))") auto

declare distortionLoop.simps [simp del]

text \<open>
  The rate of change, \<^verbatim>\<open>(distortions[i - 1] - distortions[i]) / distortions[i - 1]\<close> for
  \<open>i\<close> from 1, over the adjacent pairs of the list.  The distortions are integers and
  their difference is exact; the quotient is rounded to a double.
\<close>

fun rateOfChange :: "jsnum list \<Rightarrow> jsnum list" where
  "rateOfChange (prev # cur # rest) =
     js_fl (js_div (js_sub prev cur) prev) # rateOfChange (cur # rest)"
| "rateOfChange ds = []"

text \<open>
  The elbow: \<open>i\<close> runs from 1, \<open>drop\<close> is \<^verbatim>\<open>rateOfChange[i - 1] - rateOfChange[i]\<close>, a
  difference of doubles rounded to a double.
\<close>

fun elbowLoop :: "jsnum list \<Rightarrow> nat \<Rightarrow> jsnum \<Rightarrow> nat \<Rightarrow> nat" where
  "elbowLoop (prev # cur # rest) i maxDrop elbowIndex =
     (let drop = js_fl (js_sub prev cur)
      in if js_lt maxDrop drop then elbowLoop (cur # rest) (i + 1) drop i
         else elbowLoop (cur # rest) (i + 1) maxDrop elbowIndex)"
| "elbowLoop rates i maxDrop elbowIndex = elbowIndex"

definition determineBestK :: "imageData \<Rightarrow> int \<Rightarrow> error + int" where
  "determineBestK imageData maxK =
     (let pixels = samplePixels (data imageData) 0 []
      in if length pixels = 0 then Inr 2
         else case distortionLoop pixels maxK 1 [] of
           Inl e \<Rightarrow> Inl e
         | Inr distortions \<Rightarrow>
             (let rates = rateOfChange distortions
              in if length rates = 0 then Inr 2
                 else Inr (max 2 (min (int (elbowLoop rates 1 NegInf 0) + 2) maxK))))"

section \<open>Peaks and median spacing (\<^verbatim>\<open>pixelDetect.js\<close>)\<close>

text \<open>
  \<^verbatim>\<open>findPeaks\<close>: \<open>i\<close> runs from 1 while \<open>i < data.length - 1\<close>.  The test of the distance
  reads the last accepted peak only when there is one.
\<close>

function findPeaksLoop :: "real list \<Rightarrow> nat \<Rightarrow> real \<Rightarrow> nat \<Rightarrow> nat list \<Rightarrow> nat list" where
  "findPeaksLoop d distance height' i peaks =
     (if i + 1 < length d then
        findPeaksLoop d distance height' (i + 1)
          (if d ! i > d ! (i - 1) \<and> d ! i > d ! (i + 1) \<and> d ! i \<ge> height' then
             (if (if length peaks = 0 then True else i - last peaks \<ge> distance)
              then peaks @ [i] else peaks)
           else peaks)
      else peaks)"
  by pat_completeness auto
termination
  by (relation "measure (\<lambda>(d, distance, height', i, peaks). length d - i)") auto

declare findPeaksLoop.simps [simp del]

definition findPeaks :: "real list \<Rightarrow> nat \<Rightarrow> real \<Rightarrow> nat list" where
  "findPeaks d distance height' = findPeaksLoop d distance height' 1 []"

text \<open>The spacing computation of \<^verbatim>\<open>pixelDetect\<close>: \<^verbatim>\<open>peaks[i] - peaks[i - 1]\<close> for \<open>i\<close> from 1.\<close>

fun spacing :: "nat list \<Rightarrow> int list" where
  "spacing (prev # cur # rest) = (int cur - int prev) # spacing (cur # rest)"
| "spacing peaks = []"

definition median :: "int list \<Rightarrow> real" where
  "median arr =
     (if length arr = 0 then 1
      else let sorted = sort arr;
               mid = length sorted div 2
           in if length sorted mod 2 = 0
              then (real_of_int (sorted ! (mid - 1)) + real_of_int (sorted ! mid)) / 2
              else real_of_int (sorted ! mid))"

section \<open>Dominant colour of a tile (\<^verbatim>\<open>pixelDetect.js\<close>)\<close>

type_synonym centroid = "real \<times> real \<times> real"

text \<open>
  \<^verbatim>\<open>colorDistance\<close> of a colour and a centroid, every operation rounded to a double.
\<close>

fun colorDistance :: "rgb \<Rightarrow> centroid \<Rightarrow> real" where
  "colorDistance (r, g, b) (cr, cg, cb) =
     (let dr = dsub (real_of_int r) cr;
          dg = dsub (real_of_int g) cg;
          db = dsub (real_of_int b) cb
      in dsqrt (dadd (dadd (dmul dr dr) (dmul dg dg)) (dmul db db)))"

text \<open>\<^verbatim>\<open>averageColor\<close>: the sums are integers, the quotients are rounded to doubles.\<close>

definition averageColor :: "rgb list \<Rightarrow> centroid" where
  "averageColor colors =
     (if length colors = 0 then (0, 0, 0)
      else let sumR = sum_list (map (chan 0) colors);
               sumG = sum_list (map (chan 1) colors);
               sumB = sum_list (map (chan 2) colors);
               n = length colors
           in (ddiv (real_of_int sumR) (real n), ddiv (real_of_int sumG) (real n),
               ddiv (real_of_int sumB) (real n)))"

text \<open>A copy \<^verbatim>\<open>[...colors[j]]\<close> of a colour, used as a centroid.\<close>

fun toCentroid :: "rgb \<Rightarrow> centroid" where
  "toCentroid (r, g, b) = (real_of_int r, real_of_int g, real_of_int b)"

text \<open>
  The seeds.  \<open>step\<close> is \<^verbatim>\<open>Math.floor(colors.length / k)\<close>; for \<open>k = 0\<close> the loop does not
  run and \<open>step\<close> is not used.
\<close>

function seedLoop :: "rgb list \<Rightarrow> nat \<Rightarrow> nat \<Rightarrow> nat \<Rightarrow> centroid list \<Rightarrow> centroid list" where
  "seedLoop colors k step i centroids =
     (if i < k \<and> i * step < length colors
      then seedLoop colors k step (i + 1) (centroids @ [toCentroid (colors ! (i * step))])
      else centroids)"
  by pat_completeness auto
termination
  by (relation "measure (\<lambda>(colors, k, step, i, centroids). k - i)") auto

declare seedLoop.simps [simp del]

text \<open>The nearest centroid of one colour: \<open>minDist\<close> starts at \<open>Infinity\<close>.\<close>

fun nearestClusterLoop :: "rgb \<Rightarrow> centroid list \<Rightarrow> nat \<Rightarrow> jsnum \<Rightarrow> nat \<Rightarrow> nat" where
  "nearestClusterLoop color [] i minDist nearestCluster = nearestCluster"
| "nearestClusterLoop color (c # cs) i minDist nearestCluster =
     (let dist = Num (colorDistance color c)
      in if js_lt dist minDist then nearestClusterLoop color cs (i + 1) dist i
         else nearestClusterLoop color cs (i + 1) minDist nearestCluster)"

text \<open>
  The assignment pass.  \<^verbatim>\<open>clusters[nearestCluster].push(color)\<close> throws a \<^verbatim>\<open>TypeError\<close>
  when \<open>clusters\<close> has no element at that index.
\<close>

fun assignLoop :: "rgb list \<Rightarrow> centroid list \<Rightarrow> rgb list list \<Rightarrow> error + rgb list list" where
  "assignLoop [] centroids clusters = Inr clusters"
| "assignLoop (color # rest) centroids clusters =
     (let nearestCluster = nearestClusterLoop color centroids 0 PosInf 0
      in if nearestCluster < length clusters
         then assignLoop rest centroids
                (clusters[nearestCluster := clusters ! nearestCluster @ [color]])
         else Inl TypeError)"

text \<open>
  The update of the centroids, \<open>i\<close> from 0 to \<open>k - 1\<close>.  The centroid list has \<open>k\<close>
  elements whenever this loop runs, so the assignment is an update in range.
\<close>

fun updateLoop :: "rgb list list \<Rightarrow> nat \<Rightarrow> nat \<Rightarrow> centroid list \<Rightarrow> centroid list" where
  "updateLoop clusters 0 i centroids = centroids"
| "updateLoop clusters (Suc n) i centroids =
     updateLoop clusters n (i + 1)
       (if length (clusters ! i) > 0 then centroids[i := averageColor (clusters ! i)]
        else centroids)"

definition maxIterations :: nat where
  "maxIterations = 5"

function kmeansLoop :: "rgb list \<Rightarrow> nat \<Rightarrow> nat \<Rightarrow> centroid list \<Rightarrow> error + centroid list" where
  "kmeansLoop colors k iter centroids =
     (if iter < maxIterations then
        (case assignLoop colors centroids (replicate k []) of
           Inl e \<Rightarrow> Inl e
         | Inr clusters \<Rightarrow> kmeansLoop colors k (iter + 1) (updateLoop clusters k 0 centroids))
      else Inr centroids)"
  by pat_completeness auto
termination
  by (relation "measure (\<lambda>(colors, k, iter, centroids). maxIterations - iter)") auto

declare kmeansLoop.simps [simp del]

text \<open>The largest cluster: \<open>maxSize\<close> starts at 0 and \<open>largestCluster\<close> at 0.\<close>

fun largestLoop :: "rgb list list \<Rightarrow> nat \<Rightarrow> nat \<Rightarrow> nat \<Rightarrow> nat \<Rightarrow> nat" where
  "largestLoop clusters 0 i maxSize largestCluster = largestCluster"
| "largestLoop clusters (Suc n) i maxSize largestCluster =
     (if length (clusters ! i) > maxSize
      then largestLoop clusters n (i + 1) (length (clusters ! i)) i
      else largestLoop clusters n (i + 1) maxSize largestCluster)"

text \<open>\<^verbatim>\<open>centroid.map(v => Math.round(v))\<close>.\<close>

fun roundCentroid :: "centroid \<Rightarrow> rgb" where
  "roundCentroid (r, g, b) = (\<lfloor>r + 1 / 2\<rfloor>, \<lfloor>g + 1 / 2\<rfloor>, \<lfloor>b + 1 / 2\<rfloor>)"

definition findDominantColor :: "rgb list \<Rightarrow> nat \<Rightarrow> error + rgb" where
  "findDominantColor colors k =
     (if length colors = 0 then Inr (0, 0, 0)
      else if length colors = 1 then Inr (colors ! 0)
      else
        let step = length colors div k;
            centroids = seedLoop colors k step 0 []
        in case kmeansLoop colors k 0 centroids of
             Inl e \<Rightarrow> Inl e
           | Inr centroids \<Rightarrow>
               (case assignLoop colors centroids (replicate k []) of
                  Inl e \<Rightarrow> Inl e
                | Inr clusters \<Rightarrow>
                    (let largestCluster = largestLoop clusters k 0 0 0
                     in if largestCluster < length centroids
                        then Inr (roundCentroid (centroids ! largestCluster))
                        else Inl TypeError)))"

section \<open>Downscaling by tiles (\<^verbatim>\<open>pixelDetect.js\<close>)\<close>

text \<open>The colours of the source pixels with \<open>x1 \<le> x < x2\<close> and \<open>y1 \<le> y < y2\<close>, row by row.\<close>

definition tileColors :: "imageData \<Rightarrow> nat \<Rightarrow> nat \<Rightarrow> nat \<Rightarrow> nat \<Rightarrow> rgb list" where
  "tileColors imageData x1 y1 x2 y2 =
     concat (map (\<lambda>y. map (\<lambda>x. pixelAt (data imageData) ((y * width imageData + x) * 4)) [x1..<x2])
                 [y1..<y2])"

text \<open>
  The body of the nested iteration of \<^verbatim>\<open>kCentroid\<close> for the tile \<open>(ty, tx)\<close>, on the output
  buffer so far; an exception of an earlier tile is passed on.  The scaling factors
  are the double quotients of the dimensions and the tile bounds the floors of double
  products; where the target width or height is 0 the body does not run.
\<close>

fun tileStep :: "imageData \<Rightarrow> nat \<Rightarrow> nat \<Rightarrow> nat \<Rightarrow> error + byte list \<Rightarrow> nat \<times> nat \<Rightarrow> error + byte list" where
  "tileStep imageData targetWidth targetHeight centroids (Inl e) (ty, tx) = Inl e"
| "tileStep imageData targetWidth targetHeight centroids (Inr outputData) (ty, tx) =
     (let srcWidth = width imageData;
          srcHeight = height imageData;
          wFactor = ddiv (real srcWidth) (real targetWidth);
          hFactor = ddiv (real srcHeight) (real targetHeight);
          x1 = nat \<lfloor>dmul (real tx) wFactor\<rfloor>;
          y1 = nat \<lfloor>dmul (real ty) hFactor\<rfloor>;
          x2 = min (nat \<lfloor>dmul (real (tx + 1)) wFactor\<rfloor>) srcWidth;
          y2 = min (nat \<lfloor>dmul (real (ty + 1)) hFactor\<rfloor>) srcHeight;
          colors = tileColors imageData x1 y1 x2 y2
      in if length colors = 0 then Inr outputData
         else case findDominantColor colors centroids of
                Inl e \<Rightarrow> Inl e
              | Inr dominantColor \<Rightarrow>
                  (let outIdx = (ty * targetWidth + tx) * 4
                   in Inr (outputData
                        [outIdx := toUint8Clamp (ofInt (chan 0 dominantColor)),
                         outIdx + 1 := toUint8Clamp (ofInt (chan 1 dominantColor)),
                         outIdx + 2 := toUint8Clamp (ofInt (chan 2 dominantColor)),
                         outIdx + 3 := 255])))"

text \<open>
  \<^verbatim>\<open>kCentroid\<close>: the tiles are visited row by row, \<open>ty\<close> in the outer loop and \<open>tx\<close> in the
  inner one, starting from a buffer of zeros.
\<close>

definition kCentroid :: "imageData \<Rightarrow> nat \<Rightarrow> nat \<Rightarrow> nat \<Rightarrow> error + imageData" where
  "kCentroid imageData targetWidth targetHeight centroids =
     (case foldl (tileStep imageData targetWidth targetHeight centroids)
             (Inr (replicate (targetWidth * targetHeight * 4) 0))
             (List.product [0..<targetHeight] [0..<targetWidth]) of
        Inl e \<Rightarrow> Inl e
      | Inr outputData \<Rightarrow> Inr \<lparr>data = outputData, width = targetWidth, height = targetHeight\<rparr>)"

section \<open>Grid detection (\<^verbatim>\<open>pixelDetect.js\<close>)\<close>

text \<open>
  The distance of two pixels of the buffer, given by their byte offsets: the square
  root, rounded to a double, of an integer.
\<close>

definition pixelDiff :: "byte list \<Rightarrow> nat \<Rightarrow> nat \<Rightarrow> real" where
  "pixelDiff d idx1 idx2 =
     (let dr = uint (d ! idx1) - uint (d ! idx2);
          dg = uint (d ! (idx1 + 1)) - uint (d ! (idx2 + 1));
          db = uint (d ! (idx1 + 2)) - uint (d ! (idx2 + 2))
      in dsqrt (real_of_int (dr * dr + dg * dg + db * db)))"

text \<open>
  The difference signals: one sum per pair of adjacent columns (rows), in a
  \<^verbatim>\<open>Float32Array\<close> of \<open>width - 1\<close> (\<open>height - 1\<close>) elements.  The sum is accumulated from
  0 in doubles, in the order of the inner loop, and rounded to a single when it is
  stored.
\<close>

definition hdiff :: "imageData \<Rightarrow> real list" where
  "hdiff imageData =
     map (\<lambda>x. f32 (foldl (\<lambda>sum y. dadd sum (pixelDiff (data imageData)
                                  ((y * width imageData + x) * 4)
                                  ((y * width imageData + x + 1) * 4)))
                        0 [0..<height imageData]))
         [0..<width imageData - 1]"

definition vdiff :: "imageData \<Rightarrow> real list" where
  "vdiff imageData =
     map (\<lambda>y. f32 (foldl (\<lambda>sum x. dadd sum (pixelDiff (data imageData)
                                  ((y * width imageData + x) * 4)
                                  (((y + 1) * width imageData + x) * 4)))
                        0 [0..<width imageData]))
         [0..<height imageData - 1]"

record detection =
  downscaled :: imageData
  hFactor :: real
  vFactor :: real

text \<open>
  \<^verbatim>\<open>pixelDetect\<close>.  \<^verbatim>\<open>new Float32Array(width - 1)\<close> throws for a width of 0, and likewise
  for the height.  The medians are positive, so the quotients are finite; they are
  rounded to doubles before \<^verbatim>\<open>Math.round\<close>, modelled by \<open>\<lfloor>x + 1 / 2\<rfloor>\<close>.
\<close>

definition pixelDetect :: "imageData \<Rightarrow> error + detection" where
  "pixelDetect imageData =
     (if width imageData = 0 \<or> height imageData = 0 then Inl RangeError
      else
        let hPeaks = findPeaks (hdiff imageData) 1 0;
            vPeaks = findPeaks (vdiff imageData) 1 0;
            hSpacing = spacing hPeaks;
            vSpacing = spacing vPeaks;
            hMedian = median hSpacing;
            vMedian = median vSpacing;
            newWidth = nat (max 1 \<lfloor>ddiv (real (width imageData)) hMedian + 1 / 2\<rfloor>);
            newHeight = nat (max 1 \<lfloor>ddiv (real (height imageData)) vMedian + 1 / 2\<rfloor>)
        in case kCentroid imageData newWidth newHeight 2 of
             Inl e \<Rightarrow> Inl e
           | Inr d \<Rightarrow> Inr \<lparr>downscaled = d, hFactor = hMedian, vFactor = vMedian\<rparr>)"

section \<open>Predicates used in the statements\<close>

text \<open>A colour whose channels are integers of a byte, as read from an image buffer.\<close>

fun inRange :: "rgb \<Rightarrow> bool" where
  "inRange (r, g, b) \<longleftrightarrow> 0 \<le> r \<and> r \<le> 255 \<and> 0 \<le> g \<and> g \<le> 255 \<and> 0 \<le> b \<and> b \<le> 255"

text \<open>\<^verbatim>\<open>Number.isFinite\<close>: neither \<open>NaN\<close> nor an infinity.\<close>

fun isFinite :: "jsnum \<Rightarrow> bool" where
  "isFinite (Num a) = True"
| "isFinite x = False"

fun finiteColor :: "pcolor \<Rightarrow> bool" where
  "finiteColor (r, g, b) \<longleftrightarrow> isFinite r \<and> isFinite g \<and> isFinite b"

text \<open>
  The spec's \<^verbatim>\<open>distanceSquared(a, b)\<close>: the sum of the squared per-channel differences
  over R, G and B.
\<close>

fun distanceSquared :: "rgb \<Rightarrow> rgb \<Rightarrow> int" where
  "distanceSquared (r1, g1, b1) (r2, g2, b2) = (r1 - r2)\<^sup>2 + (g1 - g2)\<^sup>2 + (b1 - b2)\<^sup>2"

text \<open>A palette entry written with integer literals, as in the presets.\<close>

fun ofRGB :: "rgb \<Rightarrow> pcolor" where
  "ofRGB (r, g, b) = (ofInt r, ofInt g, ofInt b)"

text \<open>
  The spec's \<^verbatim>\<open>nearest\<close>: index \<open>i\<close> holds an entry of the palette that minimises
  \<open>distanceSquared\<close> to the colour, and no earlier entry is as near.
\<close>

definition firstMin :: "rgb \<Rightarrow> rgb list \<Rightarrow> nat \<Rightarrow> bool" where
  "firstMin c qs i \<longleftrightarrow>
     i < length qs \<and>
     (\<forall>j < length qs. distanceSquared c (qs ! i) \<le> distanceSquared c (qs ! j)) \<and>
     (\<forall>j < i. distanceSquared c (qs ! i) < distanceSquared c (qs ! j))"

text \<open>
  The four bytes that one iteration of the mapping loop stores for the pixel at byte
  offset \<open>i\<close>.
\<close>

definition emitted :: "byte list \<Rightarrow> pcolor list \<Rightarrow> nat \<Rightarrow> byte list" where
  "emitted d palette i =
     (case findNearestColor (pixelAt d i) palette of
        None \<Rightarrow> []
      | Some nearest \<Rightarrow> [toUint8Clamp (fst nearest), toUint8Clamp (fst (snd nearest)),
                         toUint8Clamp (snd (snd nearest)), d ! (i + 3)])"

text \<open>A finite number that is not negative.\<close>

fun nonnegNum :: "jsnum \<Rightarrow> bool" where
  "nonnegNum (Num a) \<longleftrightarrow> 0 \<le> a"
| "nonnegNum x \<longleftrightarrow> False"

text \<open>
  The store of one tile of \<^verbatim>\<open>kCentroid\<close> when the tile is the single source pixel \<open>p\<close>:
  its three colour bytes and the alpha 255.
\<close>

definition copyPixel :: "byte list \<Rightarrow> byte list \<Rightarrow> nat \<Rightarrow> byte list" where
  "copyPixel d out p = out[4 * p := d ! (4 * p), 4 * p + 1 := d ! (4 * p + 1),
      4 * p + 2 := d ! (4 * p + 2), 4 * p + 3 := 255]"

section \<open>An image with two equal neighbours in its difference signal\<close>

text \<open>
  An image of 9 by 2 pixels: the colour changes between the columns 1 and 2, 3 and
  4, and then twice in a row, between the columns 5 and 6 and between 6 and 7.
\<close>

definition stripes :: imageData where
  "stripes =
     \<lparr>data = [0, 0, 0, 255, 0, 0, 0, 255, 5, 0, 0, 255, 5, 0, 0, 255, 0, 0, 0, 255,
              0, 0, 0, 255, 3, 2, 1, 255, 7, 3, 1, 255, 7, 3, 1, 255,
              0, 0, 0, 255, 0, 0, 0, 255, 0, 0, 0, 255, 0, 0, 0, 255, 0, 0, 0, 255,
              0, 0, 0, 255, 8, 7, 1, 255, 17, 12, 1, 255, 17, 12, 1, 255],
      width = 9, height = 2\<rparr>"

section \<open>The clustering of a tile as the spec words it\<close>







section \<open>Properties of the rounding\<close>

lemma roundHalfEven_of_int: "roundHalfEven (of_int v) = v"
  by (simp add: roundHalfEven_def Let_def)

lemma roundHalfEven_eq:
  assumes "real_of_int m - 1 / 2 < a" "a < real_of_int m + 1 / 2"
  shows "roundHalfEven a = m"
proof (cases "real_of_int m \<le> a")
  case True
  with assms(2) have f: "\<lfloor>a\<rfloor> = m" by (simp add: floor_eq_iff)
  with assms(2) show ?thesis by (simp add: roundHalfEven_def Let_def)
next
  case False
  with assms(1) have f: "\<lfloor>a\<rfloor> = m - 1" by (simp add: floor_eq_iff)
  with assms(1) show ?thesis by (simp add: roundHalfEven_def Let_def)
qed

lemma roundToBits_eval:
  assumes "2 powr real_of_int e \<le> \<bar>x\<bar>" "\<bar>x\<bar> < 2 powr (real_of_int e + 1)"
  shows "roundToBits p x =
     real_of_int (roundHalfEven (x / 2 powr (real_of_int e + 1 - real p)))
       * 2 powr (real_of_int e + 1 - real p)"
proof -
  have pos: "0 < \<bar>x\<bar>" using assms(1) by (smt (verit) powr_gt_zero)
  then have "\<lfloor>log 2 \<bar>x\<bar>\<rfloor> = e"
    using assms by (simp add: floor_log_eq_powr_iff)
  with pos show ?thesis by (simp add: roundToBits_def Let_def)
qed

lemma fl_of_int [simp]: "fl (of_int n) = of_int n"
  by (simp add: fl_def)

lemma fl_of_nat [simp]: "fl (of_nat n) = of_nat n"
  using fl_of_int [of "int n"] by simp

lemma fl_numeral [simp]: "fl (numeral n) = numeral n"
  using fl_of_int [of "numeral n"] by simp

lemma fl_0 [simp]: "fl 0 = 0"
  using fl_of_int [of 0] by simp

lemma fl_1 [simp]: "fl 1 = 1"
  using fl_of_int [of 1] by simp

lemma fl_neg_numeral [simp]: "fl (- numeral n) = - numeral n"
  using fl_of_int [of "- numeral n"] by simp

lemma not_int_between:
  assumes "real_of_int k < x" "x < real_of_int k + 1"
  shows "real_of_int \<lfloor>x\<rfloor> \<noteq> x"
proof -
  from assms have "\<lfloor>x\<rfloor> = k" by (simp add: floor_eq_iff)
  with assms(1) show ?thesis by simp
qed

text \<open>A number half way between two integers goes to the even one.\<close>

lemma roundHalfEven_tie:
  assumes "a = real_of_int m + 1 / 2"
  shows "roundHalfEven a = (if even m then m else m + 1)"
proof -
  have "\<lfloor>a\<rfloor> = m" unfolding assms by (simp add: floor_eq_iff)
  then show ?thesis by (simp add: roundHalfEven_def Let_def assms)
qed

text \<open>
  The rounding of a number that is not an integer, from its binade \<open>2\<^sup>e \<le> |x| < 2\<^sup>e\<^sup>+\<^sup>1\<close>.
\<close>

lemma fl_round:
  assumes "real_of_int \<lfloor>x\<rfloor> \<noteq> x"
    and "2 powi e \<le> \<bar>x\<bar>" "\<bar>x\<bar> < 2 powi (e + 1)"
  shows "fl x = real_of_int (roundHalfEven (x / 2 powi (e - 52))) * 2 powi (e - 52)"
proof -
  have p: "2 powr real_of_int k = 2 powi k" for k
    by (simp add: powr_real_of_int')
  have b: "2 powr real_of_int e \<le> \<bar>x\<bar>" "\<bar>x\<bar> < 2 powr (real_of_int e + 1)"
    using assms(2,3) p [of e] p [of "e + 1"] by simp_all
  have "real_of_int e + 1 - real 53 = real_of_int (e - 52)" by simp
  then have "2 powr (real_of_int e + 1 - real 53) = 2 powi (e - 52)"
    using p [of "e - 52"] by simp
  with roundToBits_eval [OF b, of 53] assms(1) show ?thesis by (simp add: fl_def)
qed

lemma int_scaled:
  assumes "real_of_int \<lfloor>x\<rfloor> = x" "e \<le> 52"
  shows "x / 2 powi (e - 52) = real_of_int (\<lfloor>x\<rfloor> * 2 ^ nat (52 - e))"
proof -
  have "(2::real) powi (e - 52) = 1 / 2 powi (52 - e)"
    using power_int_minus [of "2::real" "52 - e"] by (simp add: field_simps)
  also have "(2::real) powi (52 - e) = 2 ^ nat (52 - e)"
    using assms(2) by (simp add: power_int_def)
  finally have "y / 2 powi (e - 52) = y * 2 ^ nat (52 - e)" for y :: real
    by simp
  then have "real_of_int \<lfloor>x\<rfloor> / 2 powi (e - 52)
      = real_of_int (\<lfloor>x\<rfloor> * 2 ^ nat (52 - e))"
    by simp
  then show ?thesis by (simp only: assms(1))
qed

text \<open>
  The evaluation of \<open>fl\<close>: the multiple \<open>m\<close> of the unit \<open>2\<^sup>e\<^sup>-\<^sup>5\<^sup>2\<close> of the binade that is
  nearer than half a unit, or the even neighbour at half a unit; and likewise for a
  square root, by a comparison of squares.
\<close>

lemma fl_near:
  assumes "e \<le> 52"
    and "2 powi e \<le> \<bar>x\<bar>" "\<bar>x\<bar> < 2 powi (e + 1)"
    and "real_of_int m - 1 / 2 < x / 2 powi (e - 52)" "x / 2 powi (e - 52) < real_of_int m + 1 / 2"
  shows "fl x = real_of_int m * 2 powi (e - 52)"
proof (cases "real_of_int \<lfloor>x\<rfloor> = x")
  case False
  from fl_round [OF False assms(2,3)] roundHalfEven_eq [OF assms(4,5)] show ?thesis by simp
next
  case True
  let ?K = "\<lfloor>x\<rfloor> * 2 ^ nat (52 - e)"
  have q: "x / 2 powi (e - 52) = real_of_int ?K" using True assms(1) by (rule int_scaled)
  from assms(4,5) have "real_of_int m - 1 / 2 < real_of_int ?K" "real_of_int ?K < real_of_int m + 1 / 2"
    unfolding q by simp_all
  then have "?K = m" by linarith
  with q have "x / 2 powi (e - 52) = real_of_int m" by simp
  then have "x = real_of_int m * 2 powi (e - 52)" by (simp add: field_simps)
  moreover from True have "fl x = x" by (simp add: fl_def)
  ultimately show ?thesis by simp
qed

lemma fl_tie:
  assumes "e \<le> 52"
    and "2 powi e \<le> \<bar>x\<bar>" "\<bar>x\<bar> < 2 powi (e + 1)"
    and "x / 2 powi (e - 52) = real_of_int m + 1 / 2"
  shows "fl x = real_of_int (if even m then m else m + 1) * 2 powi (e - 52)"
proof (cases "real_of_int \<lfloor>x\<rfloor> = x")
  case False
  from fl_round [OF False assms(2,3)] roundHalfEven_tie [OF assms(4)] show ?thesis by simp
next
  case True
  let ?K = "\<lfloor>x\<rfloor> * 2 ^ nat (52 - e)"
  have q: "x / 2 powi (e - 52) = real_of_int ?K" using True assms(1) by (rule int_scaled)
  with assms(4) have "real_of_int ?K = real_of_int m + 1 / 2" by simp
  then have "2 * real_of_int ?K = 2 * real_of_int m + 1" by simp
  then have "real_of_int (2 * ?K) = real_of_int (2 * m + 1)" by simp
  then have "2 * ?K = 2 * m + 1" by (simp only: of_int_eq_iff)
  then have False by presburger
  then show ?thesis ..
qed

lemma fl_sqrt:
  assumes "e \<le> 52" "0 < m"
    and "(2 powi e)\<^sup>2 \<le> q" "q < (2 powi (e + 1))\<^sup>2"
    and "((real_of_int m - 1 / 2) * 2 powi (e - 52))\<^sup>2 < q"
    and "q < ((real_of_int m + 1 / 2) * 2 powi (e - 52))\<^sup>2"
  shows "fl (sqrt q) = real_of_int m * 2 powi (e - 52)"
proof (rule fl_near [OF assms(1)])
  have u: "0 < (2::real) powi (e - 52)" by simp
  have q0: "0 \<le> q" using assms(3) by (smt (verit) zero_le_power2)
  have s0: "0 \<le> sqrt q" using q0 by simp
  have "2 powi e \<le> sqrt q"
    using assms(3) by (simp add: real_le_rsqrt)
  then show "2 powi e \<le> \<bar>sqrt q\<bar>" using s0 by simp
  have "sqrt q < 2 powi (e + 1)"
    using assms(4) q0 by (intro real_less_lsqrt) simp_all
  then show "\<bar>sqrt q\<bar> < 2 powi (e + 1)" using s0 by simp
  have "(real_of_int m - 1 / 2) * 2 powi (e - 52) < sqrt q"
    using assms(5) by (rule real_less_rsqrt)
  then show "real_of_int m - 1 / 2 < sqrt q / 2 powi (e - 52)"
    using u by (simp add: pos_less_divide_eq)
  have "0 \<le> (real_of_int m + 1 / 2) * 2 powi (e - 52)" using assms(2) by simp
  with assms(6) q0 have "sqrt q < (real_of_int m + 1 / 2) * 2 powi (e - 52)"
    by (intro real_less_lsqrt) simp_all
  then show "sqrt q / 2 powi (e - 52) < real_of_int m + 1 / 2"
    using u by (simp add: pos_divide_less_eq)
qed

text \<open>The evaluation of the store into a \<^verbatim>\<open>Float32Array\<close>.\<close>

lemma f32_near:
  assumes "2 powi e \<le> \<bar>x\<bar>" "\<bar>x\<bar> < 2 powi (e + 1)"
    and "real_of_int m - 1 / 2 < x / 2 powi (e - 23)" "x / 2 powi (e - 23) < real_of_int m + 1 / 2"
  shows "f32 x = real_of_int m * 2 powi (e - 23)"
proof -
  have p: "2 powr real_of_int k = 2 powi k" for k
    by (simp add: powr_real_of_int')
  have b: "2 powr real_of_int e \<le> \<bar>x\<bar>" "\<bar>x\<bar> < 2 powr (real_of_int e + 1)"
    using assms(1,2) p [of e] p [of "e + 1"] by simp_all
  have "real_of_int e + 1 - real 24 = real_of_int (e - 23)" by simp
  then have "2 powr (real_of_int e + 1 - real 24) = 2 powi (e - 23)"
    using p [of "e - 23"] by simp
  with roundToBits_eval [OF b, of 24] roundHalfEven_eq [OF assms(3,4)] show ?thesis
    by (simp add: f32_def)
qed

lemma f32_5: "f32 5 = 5"
proof -
  have "f32 5 = real_of_int 10485760 * 2 powi (2 - 23)"
    by (rule f32_near) simp_all
  then show ?thesis by simp
qed

lemma f32_0 [simp]: "f32 0 = 0"
  by (simp add: f32_def roundToBits_def)

lemma js_fl_ofInt [simp]: "js_fl (ofInt i) = ofInt i"
  by (simp add: ofInt_def)


section \<open>Properties of median cut\<close>

lemma splitLoop_done:
  "\<not> int (length buckets) < k \<Longrightarrow> splitLoop buckets k = buckets"
  by (subst splitLoop.simps) simp

lemma splitLoop_null:
  "largestBucket (selectLargest buckets) = None \<Longrightarrow> splitLoop buckets k = buckets"
  by (subst splitLoop.simps) simp

lemma splitLoop_break:
  "largestBucket (selectLargest buckets) = Some idx \<Longrightarrow> length (buckets ! idx) < 2 \<Longrightarrow>
   splitLoop buckets k = buckets"
  by (subst splitLoop.simps) simp

lemma splitLoop_step:
  "int (length buckets) < k \<Longrightarrow> largestBucket (selectLargest buckets) = Some idx \<Longrightarrow>
   \<not> length (buckets ! idx) < 2 \<Longrightarrow>
   splitLoop buckets k =
   splitLoop (splitBucket buckets idx (largestChannel (selectLargest buckets))) k"
  by (subst splitLoop.simps) simp

lemma set_splitBucket:
  assumes "idx < length buckets"
  shows "set (splitBucket buckets idx ch) =
    set (take idx buckets) \<union> set (drop (Suc idx) buckets) \<union>
    {take (length (buckets ! idx) div 2) (sort_key (chan ch) (buckets ! idx)),
     drop (length (buckets ! idx) div 2) (sort_key (chan ch) (buckets ! idx))}"
  by (auto simp: splitBucket_def Let_def)

lemma halves_nonempty:
  assumes "2 \<le> length bucket"
  shows "take (length bucket div 2) (sort_key (chan ch) bucket) \<noteq> [] \<and>
     drop (length bucket div 2) (sort_key (chan ch) bucket) \<noteq> []"
proof -
  have "length (take (length bucket div 2) (sort_key (chan ch) bucket)) = length bucket div 2"
    by simp
  moreover have "length (drop (length bucket div 2) (sort_key (chan ch) bucket))
      = length bucket - length bucket div 2"
    by simp
  moreover have "0 < length bucket div 2" "0 < length bucket - length bucket div 2"
    using assms by auto
  ultimately show ?thesis
    by (metis length_greater_0_conv)
qed

lemma splitBucket_nonempty:
  assumes "idx < length buckets" "2 \<le> length (buckets ! idx)" "\<forall>b \<in> set buckets. b \<noteq> []"
  shows "\<forall>b \<in> set (splitBucket buckets idx ch). b \<noteq> []"
proof
  fix b assume "b \<in> set (splitBucket buckets idx ch)"
  then consider "b \<in> set (take idx buckets)" | "b \<in> set (drop (Suc idx) buckets)"
    | "b = take (length (buckets ! idx) div 2) (sort_key (chan ch) (buckets ! idx))"
    | "b = drop (length (buckets ! idx) div 2) (sort_key (chan ch) (buckets ! idx))"
    using assms(1) by (auto simp: set_splitBucket)
  then show "b \<noteq> []"
  proof cases
    case 1 then show ?thesis using assms(3) by (auto dest: in_set_takeD)
  next
    case 2 then show ?thesis using assms(3) by (auto dest: in_set_dropD)
  next
    case 3 then show ?thesis using halves_nonempty [OF assms(2)] by simp
  next
    case 4 then show ?thesis using halves_nonempty [OF assms(2)] by simp
  qed
qed

lemma splitLoop_nonempty:
  "\<forall>b \<in> set buckets. b \<noteq> [] \<Longrightarrow> \<forall>b \<in> set (splitLoop buckets k). b \<noteq> []"
proof (induction buckets k rule: splitLoop.induct)
  case (1 buckets numColors)
  show ?case
  proof (cases "int (length buckets) < numColors")
    case False
    then show ?thesis using "1.prems" by (simp add: splitLoop_done)
  next
    case True
    show ?thesis
    proof (cases "largestBucket (selectLargest buckets)")
      case None
      then show ?thesis using "1.prems" by (simp add: splitLoop_null)
    next
      case (Some idx)
      show ?thesis
      proof (cases "length (buckets ! idx) < 2")
        case True
        then show ?thesis using Some "1.prems" by (simp add: splitLoop_break)
      next
        case False
        have "idx < length buckets" using Some by (rule selectLargest_index)
        then have "\<forall>b \<in> set (splitBucket buckets idx (largestChannel (selectLargest buckets))). b \<noteq> []"
          using False "1.prems" by (intro splitBucket_nonempty) auto
        then have "\<forall>b \<in> set (splitLoop (splitBucket buckets idx (largestChannel (selectLargest buckets))) numColors). b \<noteq> []"
          using "1.IH" [OF True refl Some False] by simp
        then show ?thesis using True Some False by (simp add: splitLoop_step)
      qed
    qed
  qed
qed

lemma averageBucket_Num:
  "bucket \<noteq> [] \<Longrightarrow> \<exists>r g b. averageBucket bucket = (Num r, Num g, Num b)"
  by (simp add: averageBucket_def ofInt_def Let_def)



lemma rangeLoop_bounds:
  "rangeLoop ps a b c d e f = (dr, dg, db) \<Longrightarrow>
   (\<exists>lo hi. dr = hi - lo \<and> lo \<le> a \<and> b \<le> hi \<and> (\<forall>x \<in> set ps. lo \<le> chan 0 x \<and> chan 0 x \<le> hi)) \<and>
   (\<exists>lo hi. dg = hi - lo \<and> lo \<le> c \<and> d \<le> hi \<and> (\<forall>x \<in> set ps. lo \<le> chan 1 x \<and> chan 1 x \<le> hi)) \<and>
   (\<exists>lo hi. db = hi - lo \<and> lo \<le> e \<and> f \<le> hi \<and> (\<forall>x \<in> set ps. lo \<le> chan 2 x \<and> chan 2 x \<le> hi))"
proof (induction ps arbitrary: a b c d e f)
  case Nil
  then show ?case by auto
next
  case (Cons p ps)
  obtain r g bl where p: "p = (r, g, bl)" by (cases p)
  from Cons.prems have
    "rangeLoop ps (min a r) (max b r) (min c g) (max d g) (min e bl) (max f bl) = (dr, dg, db)"
    by (simp add: p)
  from Cons.IH [OF this] obtain lo1 hi1 lo2 hi2 lo3 hi3 where
    1: "dr = hi1 - lo1" "lo1 \<le> min a r" "max b r \<le> hi1" "\<forall>x \<in> set ps. lo1 \<le> chan 0 x \<and> chan 0 x \<le> hi1" and
    2: "dg = hi2 - lo2" "lo2 \<le> min c g" "max d g \<le> hi2" "\<forall>x \<in> set ps. lo2 \<le> chan 1 x \<and> chan 1 x \<le> hi2" and
    3: "db = hi3 - lo3" "lo3 \<le> min e bl" "max f bl \<le> hi3" "\<forall>x \<in> set ps. lo3 \<le> chan 2 x \<and> chan 2 x \<le> hi3"
    by blast
  have "\<exists>lo hi. dr = hi - lo \<and> lo \<le> a \<and> b \<le> hi \<and> (\<forall>x \<in> set (p # ps). lo \<le> chan 0 x \<and> chan 0 x \<le> hi)"
    using 1 by (intro exI [of _ lo1] exI [of _ hi1]) (auto simp: p)
  moreover have "\<exists>lo hi. dg = hi - lo \<and> lo \<le> c \<and> d \<le> hi \<and> (\<forall>x \<in> set (p # ps). lo \<le> chan 1 x \<and> chan 1 x \<le> hi)"
    using 2 by (intro exI [of _ lo2] exI [of _ hi2]) (auto simp: p)
  moreover have "\<exists>lo hi. db = hi - lo \<and> lo \<le> e \<and> f \<le> hi \<and> (\<forall>x \<in> set (p # ps). lo \<le> chan 2 x \<and> chan 2 x \<le> hi)"
    using 3 by (intro exI [of _ lo3] exI [of _ hi3]) (auto simp: p)
  ultimately show ?case by blast
qed

lemma maxOf3_ranges_nonneg: "0 \<le> maxOf3 (getColorRanges b)"
proof (cases "b = []")
  case True
  then show ?thesis by (simp add: getColorRanges_def)
next
  case False
  obtain dr dg db where r: "rangeLoop b 255 0 255 0 255 0 = (dr, dg, db)"
    by (metis prod_cases3)
  from rangeLoop_bounds [OF r] obtain lo hi where "dr = hi - lo" "\<forall>x \<in> set b. lo \<le> chan 0 x \<and> chan 0 x \<le> hi"
    by blast
  moreover from False obtain x where "x \<in> set b" by (cases b) auto
  ultimately have "0 \<le> dr" by fastforce
  then show ?thesis using False r by (simp add: getColorRanges_def)
qed

lemma ranges_zero_equal:
  assumes "maxOf3 (getColorRanges b) \<le> 0" "x \<in> set b" "y \<in> set b"
  shows "x = y"
proof -
  from assms(2) have ne: "b \<noteq> []" by auto
  obtain dr dg db where r: "rangeLoop b 255 0 255 0 255 0 = (dr, dg, db)"
    by (metis prod_cases3)
  from assms(1) ne r have le: "dr \<le> 0" "dg \<le> 0" "db \<le> 0"
    by (auto simp: getColorRanges_def)
  from rangeLoop_bounds [OF r] obtain lo1 hi1 lo2 hi2 lo3 hi3 where
    1: "dr = hi1 - lo1" "\<forall>x \<in> set b. lo1 \<le> chan 0 x \<and> chan 0 x \<le> hi1" and
    2: "dg = hi2 - lo2" "\<forall>x \<in> set b. lo2 \<le> chan 1 x \<and> chan 1 x \<le> hi2" and
    3: "db = hi3 - lo3" "\<forall>x \<in> set b. lo3 \<le> chan 2 x \<and> chan 2 x \<le> hi3"
    by blast
  have "lo1 \<le> chan 0 x" "chan 0 x \<le> hi1" "lo1 \<le> chan 0 y" "chan 0 y \<le> hi1"
    using 1(2) assms(2,3) by auto
  with 1(1) le(1) have "chan 0 x = chan 0 y" by linarith
  moreover
  have "lo2 \<le> chan 1 x" "chan 1 x \<le> hi2" "lo2 \<le> chan 1 y" "chan 1 y \<le> hi2"
    using 2(2) assms(2,3) by auto
  with 2(1) le(2) have "chan 1 x = chan 1 y" by linarith
  moreover
  have "lo3 \<le> chan 2 x" "chan 2 x \<le> hi3" "lo3 \<le> chan 2 y" "chan 2 y \<le> hi3"
    using 3(2) assms(2,3) by auto
  with 3(1) le(3) have "chan 2 x = chan 2 y" by linarith
  ultimately show ?thesis by (cases x; cases y) simp
qed

lemma ranges_single_inRange:
  "inRange p \<Longrightarrow> getColorRanges [p] = (0, 0, 0)"
  by (cases p) (simp add: getColorRanges_def)

lemma ranges_small_bucket:
  assumes "length b < 2" "\<forall>p \<in> set b. inRange p"
  shows "maxOf3 (getColorRanges b) = 0"
proof (cases b)
  case Nil
  then show ?thesis by (simp add: getColorRanges_def)
next
  case (Cons p ps)
  with assms(1) have "b = [p]" by (cases ps) auto
  with assms(2) show ?thesis by (simp add: ranges_single_inRange)
qed

text \<open>What the selection loop returns.\<close>

lemma selectLoop_max:
  "largestRange s \<le> largestRange (selectLoop bs i s) \<and>
   (\<forall>b \<in> set bs. maxOf3 (getColorRanges b) \<le> largestRange (selectLoop bs i s))"
proof (induction bs arbitrary: i s)
  case Nil
  then show ?case by simp
next
  case (Cons b bs)
  let ?s' = "if maxOf3 (getColorRanges b) > largestRange s
        then \<lparr>largestBucket = Some i, largestRange = maxOf3 (getColorRanges b),
              largestChannel = indexOf3 (getColorRanges b) (maxOf3 (getColorRanges b))\<rparr>
        else s"
  have eq: "selectLoop (b # bs) i s = selectLoop bs (Suc i) ?s'"
    by (simp add: Let_def)
  have "largestRange s \<le> largestRange ?s'" "maxOf3 (getColorRanges b) \<le> largestRange ?s'"
    by auto
  moreover note ih = Cons.IH [where i = "Suc i" and s = ?s']
  ultimately have "largestRange s \<le> largestRange (selectLoop bs (Suc i) ?s')"
    and "maxOf3 (getColorRanges b) \<le> largestRange (selectLoop bs (Suc i) ?s')"
    and "\<forall>b \<in> set bs. maxOf3 (getColorRanges b) \<le> largestRange (selectLoop bs (Suc i) ?s')"
    by (blast intro: order_trans)+
  then show ?case
    unfolding eq by simp
qed

lemma selectLoop_range:
  "largestBucket (selectLoop bs i s) = Some idx \<Longrightarrow>
   (largestBucket s = Some idx \<and> selectLoop bs i s = s) \<or>
   (i \<le> idx \<and> idx < i + length bs \<and>
    largestRange (selectLoop bs i s) = maxOf3 (getColorRanges (bs ! (idx - i))))"
proof (induction bs arbitrary: i s)
  case Nil
  then show ?case by simp
next
  case (Cons b bs)
  let ?s' = "if maxOf3 (getColorRanges b) > largestRange s
        then \<lparr>largestBucket = Some i, largestRange = maxOf3 (getColorRanges b),
              largestChannel = indexOf3 (getColorRanges b) (maxOf3 (getColorRanges b))\<rparr>
        else s"
  have eq: "selectLoop (b # bs) i s = selectLoop bs (Suc i) ?s'"
    by (simp add: Let_def)
  from Cons.prems have "largestBucket (selectLoop bs (Suc i) ?s') = Some idx"
    unfolding eq .
  from Cons.IH [OF this] show ?case
  proof
    assume a: "largestBucket ?s' = Some idx \<and> selectLoop bs (Suc i) ?s' = ?s'"
    show ?thesis
    proof (cases "maxOf3 (getColorRanges b) > largestRange s")
      case True
      with a have "idx = i" "selectLoop bs (Suc i) ?s' = ?s'" by auto
      then show ?thesis unfolding eq using True by simp
    next
      case False
      with a show ?thesis unfolding eq by simp
    qed
  next
    assume a: "Suc i \<le> idx \<and> idx < Suc i + length bs \<and>
      largestRange (selectLoop bs (Suc i) ?s') = maxOf3 (getColorRanges (bs ! (idx - Suc i)))"
    then have "(b # bs) ! (idx - i) = bs ! (idx - Suc i)"
      by (simp add: nth_Cons' Suc_le_eq)
    with a show ?thesis unfolding eq by simp
  qed
qed

lemma selectLoop_None:
  "largestBucket (selectLoop bs i s) = None \<Longrightarrow> selectLoop bs i s = s"
proof (induction bs arbitrary: i s)
  case Nil
  then show ?case by simp
next
  case (Cons b bs)
  let ?s' = "if maxOf3 (getColorRanges b) > largestRange s
        then \<lparr>largestBucket = Some i, largestRange = maxOf3 (getColorRanges b),
              largestChannel = indexOf3 (getColorRanges b) (maxOf3 (getColorRanges b))\<rparr>
        else s"
  have eq: "selectLoop (b # bs) i s = selectLoop bs (Suc i) ?s'"
    by (simp add: Let_def)
  from Cons.prems have n: "largestBucket (selectLoop bs (Suc i) ?s') = None"
    unfolding eq .
  from Cons.IH [OF n] have e: "selectLoop bs (Suc i) ?s' = ?s'" .
  with n have "largestBucket ?s' = None" by simp
  then have "?s' = s" by (simp split: if_splits)
  with e show ?case unfolding eq by simp
qed

lemma selectLargest_Some:
  assumes "buckets \<noteq> []"
  shows "\<exists>idx. largestBucket (selectLargest buckets) = Some idx"
proof (rule ccontr)
  assume "\<not> ?thesis"
  then have none: "largestBucket (selectLargest buckets) = None" by simp
  obtain b where b: "b \<in> set buckets" using assms by (cases buckets) auto
  have "largestRange (selectLargest buckets) = - 1"
    using selectLoop_None [OF none [unfolded selectLargest_def]] by (simp add: selectLargest_def)
  moreover have "maxOf3 (getColorRanges b) \<le> largestRange (selectLargest buckets)"
    unfolding selectLargest_def
    using selectLoop_max [where bs = buckets and i = 0
        and s = "\<lparr>largestBucket = None, largestRange = - 1, largestChannel = 0\<rparr>", THEN conjunct2] b
    by simp
  ultimately show False using maxOf3_ranges_nonneg [of b] by simp
qed

lemma selectLargest_range:
  assumes "largestBucket (selectLargest buckets) = Some idx"
  shows "idx < length buckets"
    and "largestRange (selectLargest buckets) = maxOf3 (getColorRanges (buckets ! idx))"
    and "\<forall>b \<in> set buckets. maxOf3 (getColorRanges b) \<le> maxOf3 (getColorRanges (buckets ! idx))"
proof -
  from assms show "idx < length buckets" by (rule selectLargest_index)
  show r: "largestRange (selectLargest buckets) = maxOf3 (getColorRanges (buckets ! idx))"
    using selectLoop_range [OF assms [unfolded selectLargest_def]] by (simp add: selectLargest_def)
  show "\<forall>b \<in> set buckets. maxOf3 (getColorRanges b) \<le> maxOf3 (getColorRanges (buckets ! idx))"
    using selectLoop_max [where bs = buckets and i = 0
        and s = "\<lparr>largestBucket = None, largestRange = - 1, largestChannel = 0\<rparr>", THEN conjunct2] r
    by (simp add: selectLargest_def)
qed


lemma splitLoop_inv:
  assumes "P buckets"
    and "\<And>bs idx. P bs \<Longrightarrow> int (length bs) < k \<Longrightarrow>
           largestBucket (selectLargest bs) = Some idx \<Longrightarrow> idx < length bs \<Longrightarrow>
           2 \<le> length (bs ! idx) \<Longrightarrow>
           P (splitBucket bs idx (largestChannel (selectLargest bs)))"
  shows "P (splitLoop buckets k)"
  using assms
proof (induction buckets k rule: splitLoop.induct)
  case (1 buckets numColors)
  note P = "1.prems"(1) and step = "1.prems"(2)
  show ?case
  proof (cases "int (length buckets) < numColors")
    case False
    then show ?thesis using P by (simp add: splitLoop_done)
  next
    case True
    show ?thesis
    proof (cases "largestBucket (selectLargest buckets)")
      case None
      then show ?thesis using P by (simp add: splitLoop_null)
    next
      case (Some idx)
      show ?thesis
      proof (cases "length (buckets ! idx) < 2")
        case True
        then show ?thesis using Some P by (simp add: splitLoop_break)
      next
        case False
        have "idx < length buckets" using Some by (rule selectLargest_index)
        then have "P (splitBucket buckets idx (largestChannel (selectLargest buckets)))"
          using step [OF P True Some] False by simp
        then have "P (splitLoop (splitBucket buckets idx (largestChannel (selectLargest buckets))) numColors)"
          using "1.IH" [OF True refl Some False] step by blast
        then show ?thesis using True Some False by (simp add: splitLoop_step)
      qed
    qed
  qed
qed

lemma splitLoop_exit:
  "int (length (splitLoop bs k)) < k \<Longrightarrow>
   largestBucket (selectLargest (splitLoop bs k)) = None \<or>
   (\<exists>idx. largestBucket (selectLargest (splitLoop bs k)) = Some idx \<and>
          length (splitLoop bs k ! idx) < 2)"
proof (induction bs k rule: splitLoop.induct)
  case (1 buckets numColors)
  show ?case
  proof (cases "int (length buckets) < numColors")
    case False
    then show ?thesis using "1.prems" by (simp add: splitLoop_done)
  next
    case True
    show ?thesis
    proof (cases "largestBucket (selectLargest buckets)")
      case None
      then show ?thesis by (simp add: splitLoop_null)
    next
      case (Some idx)
      show ?thesis
      proof (cases "length (buckets ! idx) < 2")
        case True
        then show ?thesis using Some by (simp add: splitLoop_break)
      next
        case False
        from "1.IH" [OF True refl Some False] "1.prems" show ?thesis
          by (simp add: splitLoop_step [OF True Some False])
      qed
    qed
  qed
qed

lemma length_splitBucket:
  "idx < length bs \<Longrightarrow> length (splitBucket bs idx ch) = Suc (length bs)"
  by (simp add: splitBucket_def Let_def)

lemma splitLoop_length_le:
  "int (length (splitLoop bs k)) \<le> max (int (length bs)) k"
  by (rule splitLoop_inv [where P = "\<lambda>b. int (length b) \<le> max (int (length bs)) k"])
    (simp_all add: length_splitBucket)

lemma splitLoop_length_ge: "length bs \<le> length (splitLoop bs k)"
  by (rule splitLoop_inv [where P = "\<lambda>b. length bs \<le> length b"])
    (simp_all add: length_splitBucket)

lemma concat_splitBucket:
  assumes "idx < length bs"
  shows "(\<Union>b \<in> set (splitBucket bs idx ch). set b) = (\<Union>b \<in> set bs. set b)"
proof -
  let ?s = "sort_key (chan ch) (bs ! idx)"
  let ?m = "length ?s div 2"
  let ?L = "\<Union>b \<in> set (take idx bs). set b"
  let ?R = "\<Union>b \<in> set (drop (Suc idx) bs). set b"
  have halves: "set (take ?m ?s) \<union> set (drop ?m ?s) = set (bs ! idx)"
    by (metis append_take_drop_id set_append set_sort)
  have "bs = take idx bs @ [bs ! idx] @ drop (Suc idx) bs"
    using assms by (simp add: id_take_nth_drop)
  then have "(\<Union>b \<in> set bs. set b)
      = (\<Union>b \<in> set (take idx bs @ [bs ! idx] @ drop (Suc idx) bs). set b)"
    by simp
  also have "\<dots> = ?L \<union> set (bs ! idx) \<union> ?R"
    by auto
  finally have whole: "(\<Union>b \<in> set bs. set b) = ?L \<union> set (bs ! idx) \<union> ?R" .
  have "(\<Union>b \<in> set (splitBucket bs idx ch). set b) = ?L \<union> (set (take ?m ?s) \<union> set (drop ?m ?s)) \<union> ?R"
    unfolding splitBucket_def Let_def by auto
  also have "\<dots> = ?L \<union> set (bs ! idx) \<union> ?R"
    unfolding halves ..
  finally show ?thesis
    using whole by simp
qed

lemma splitLoop_set: "(\<Union>b \<in> set (splitLoop bs k). set b) = (\<Union>b \<in> set bs. set b)"
  by (rule splitLoop_inv [where P = "\<lambda>b. (\<Union>x \<in> set b. set x) = (\<Union>b \<in> set bs. set b)"])
    (simp_all only: concat_splitBucket)

lemma card_buckets_le:
  assumes "\<forall>b \<in> set bs. \<forall>x \<in> set b. \<forall>y \<in> set b. x = y"
  shows "card (\<Union>b \<in> set bs. set b) \<le> length bs"
proof -
  have "card (\<Union>b \<in> set bs. set b) \<le> (\<Sum>b \<in> set bs. card (set b))"
    by (rule card_UN_le) simp
  also have "\<dots> \<le> of_nat (card (set bs)) * 1"
  proof (rule sum_bounded_above)
    fix b assume b: "b \<in> set bs"
    show "card (set b) \<le> 1"
    proof (cases b)
      case Nil then show ?thesis by simp
    next
      case (Cons x xs)
      then have "x \<in> set b" by simp
      with assms b have "set b = {x}" by auto
      then show ?thesis by simp
    qed
  qed
  also have "\<dots> \<le> length bs" by (simp add: card_length)
  finally show ?thesis .
qed

lemma medianCut_length_eq:
  assumes k: "1 \<le> k" and rng: "\<forall>c \<in> set colors. inRange c"
    and card: "k \<le> int (card (set colors))"
  shows "int (length (medianCut colors k)) = k"
proof (rule ccontr)
  let ?F = "splitLoop [colors] k"
  assume neq: "int (length (medianCut colors k)) \<noteq> k"
  have "int (length ?F) \<le> max (int (length [colors])) k" by (rule splitLoop_length_le)
  with k neq have lt: "int (length ?F) < k" by (simp add: medianCut_def)
  have un: "(\<Union>b \<in> set ?F. set b) = set colors"
    using splitLoop_set [of "[colors]" k] by simp
  have "length [colors] \<le> length ?F" by (rule splitLoop_length_ge)
  then have "?F \<noteq> []" by auto
  then obtain idx where sel: "largestBucket (selectLargest ?F) = Some idx"
    using selectLargest_Some by blast
  with splitLoop_exit [OF lt] have small: "length (?F ! idx) < 2" by simp
  have idx: "idx < length ?F" using sel by (rule selectLargest_index)
  have "\<forall>p \<in> set (?F ! idx). inRange p"
    using un rng idx by (metis UN_I nth_mem)
  with small have "maxOf3 (getColorRanges (?F ! idx)) = 0" by (rule ranges_small_bucket)
  with selectLargest_range(3) [OF sel]
  have "\<forall>b \<in> set ?F. maxOf3 (getColorRanges b) \<le> 0" by simp
  then have "\<forall>b \<in> set ?F. \<forall>x \<in> set b. \<forall>y \<in> set b. x = y"
    using ranges_zero_equal by blast
  then have "card (\<Union>b \<in> set ?F. set b) \<le> length ?F" by (rule card_buckets_le)
  with un lt card show False by simp
qed

lemma splitBucket_nth:
  assumes "idx < length buckets"
  shows "splitBucket buckets idx ch ! idx =
           take (length (buckets ! idx) div 2) (sort_key (chan ch) (buckets ! idx))"
    and "splitBucket buckets idx ch ! Suc idx =
           drop (length (buckets ! idx) div 2) (sort_key (chan ch) (buckets ! idx))"
  using assms by (simp_all add: splitBucket_def Let_def nth_append)

lemma medianCut_finite:
  assumes "pixels \<noteq> []"
  shows "\<forall>c \<in> set (medianCut pixels numColors). finiteColor c"
proof -
  have "\<forall>b \<in> set (splitLoop [pixels] numColors). b \<noteq> []"
    using assms by (intro splitLoop_nonempty) simp
  then show ?thesis
    using averageBucket_Num by (fastforce simp: medianCut_def)
qed

text \<open>
  Claim C10.  In \<^verbatim>\<open>medianCut\<close>, replacing a bucket of at least two members by the two parts
  of its sorted copy cut at \<open>floor(n / 2)\<close> gives two non-empty buckets.  Hence, for a
  non-empty pixel list, every bucket of the final bucket list is non-empty: the divisor
  \<open>n\<close> of the average is never 0, and every channel of every palette colour is a finite
  number and not the \<open>NaN\<close> of \<open>0 / 0\<close>.
\<close>

theorem medianCut_buckets_nonempty:
  "(idx < length buckets \<and> 2 \<le> length (buckets ! idx) \<longrightarrow>
      splitBucket buckets idx ch ! idx \<noteq> [] \<and> splitBucket buckets idx ch ! Suc idx \<noteq> []) \<and>
   (pixels \<noteq> [] \<longrightarrow>
      (\<forall>b \<in> set (splitLoop [pixels] numColors). length b \<noteq> 0) \<and>
      (\<forall>c \<in> set (medianCut pixels numColors). finiteColor c))"
proof (intro conjI impI)
  assume a: "idx < length buckets \<and> 2 \<le> length (buckets ! idx)"
  then show "splitBucket buckets idx ch ! idx \<noteq> []"
    using halves_nonempty [of "buckets ! idx" ch] by (simp add: splitBucket_nth)
  from a show "splitBucket buckets idx ch ! Suc idx \<noteq> []"
    using halves_nonempty [of "buckets ! idx" ch] by (simp add: splitBucket_nth)
next
  assume "pixels \<noteq> []"
  then have "\<forall>b \<in> set (splitLoop [pixels] numColors). b \<noteq> []"
    by (intro splitLoop_nonempty) simp
  then show "\<forall>b \<in> set (splitLoop [pixels] numColors). length b \<noteq> 0" by simp
next
  assume "pixels \<noteq> []"
  then show "\<forall>c \<in> set (medianCut pixels numColors). finiteColor c"
    by (rule medianCut_finite)
qed

theorem medianCut_buckets_nonempty_witness:
  "(0::nat) < length ([[(0, 0, 0), (255, 255, 255), (10, 20, 30)]] :: rgb list list) \<and>
   2 \<le> length (([[(0, 0, 0), (255, 255, 255), (10, 20, 30)]] :: rgb list list) ! 0) \<and>
   splitBucket [[(0, 0, 0), (255, 255, 255), (10, 20, 30)]] 0 0 ! 0 \<noteq> [] \<and>
   splitBucket [[(0, 0, 0), (255, 255, 255), (10, 20, 30)]] 0 0 ! Suc 0 \<noteq> [] \<and>
   ([(0, 0, 0), (255, 255, 255), (10, 20, 30)] :: rgb list) \<noteq> [] \<and>
   list_all (\<lambda>b. length b \<noteq> 0) (splitLoop [[(0, 0, 0), (255, 255, 255), (10, 20, 30)]] 2) \<and>
   list_all finiteColor (medianCut [(0, 0, 0), (255, 255, 255), (10, 20, 30)] 2)"
  using medianCut_buckets_nonempty
    [of 0 "[[(0, 0, 0), (255, 255, 255), (10, 20, 30)]]" 0 "[(0, 0, 0), (255, 255, 255), (10, 20, 30)]" 2]
  by (simp add: list_all_iff)

text \<open>
  Claim C3.  For \<open>k \<ge> 1\<close> the palette returned by \<^verbatim>\<open>medianCut\<close> has at most \<open>k\<close> entries;
  it has exactly \<open>k\<close> entries when the input colours (channels in \<open>[0, 255]\<close>) contain at
  least \<open>k\<close> distinct colours; and it has fewer than \<open>k\<close> entries only when the loop was
  left because the bucket selected for splitting had fewer than 2 members.
\<close>

theorem medianCut_palette_size:
  assumes "1 \<le> k"
  shows "int (length (medianCut colors k)) \<le> k \<and>
     ((\<forall>c \<in> set colors. inRange c) \<and> k \<le> int (card (set colors)) \<longrightarrow>
        int (length (medianCut colors k)) = k) \<and>
     (int (length (medianCut colors k)) < k \<longrightarrow>
        (\<exists>idx. largestBucket (selectLargest (splitLoop [colors] k)) = Some idx \<and>
               length (splitLoop [colors] k ! idx) < 2))"
proof (intro conjI impI)
  have "int (length (splitLoop [colors] k)) \<le> max (int (length [colors])) k"
    by (rule splitLoop_length_le)
  with assms show "int (length (medianCut colors k)) \<le> k"
    by (simp add: medianCut_def)
next
  assume "(\<forall>c \<in> set colors. inRange c) \<and> k \<le> int (card (set colors))"
  with assms show "int (length (medianCut colors k)) = k"
    by (simp add: medianCut_length_eq)
next
  let ?F = "splitLoop [colors] k"
  assume "int (length (medianCut colors k)) < k"
  then have lt: "int (length ?F) < k" by (simp add: medianCut_def)
  have "length [colors] \<le> length ?F" by (rule splitLoop_length_ge)
  then have "?F \<noteq> []" by auto
  then obtain idx where sel: "largestBucket (selectLargest ?F) = Some idx"
    using selectLargest_Some by blast
  with splitLoop_exit [OF lt] have "length (?F ! idx) < 2" by simp
  with sel show "\<exists>idx. largestBucket (selectLargest ?F) = Some idx \<and> length (?F ! idx) < 2"
    by blast
qed

theorem medianCut_palette_size_witness:
  "(1::int) \<le> 2 \<and>
   inRange (0, 0, 0) \<and> inRange (255, 255, 255) \<and> inRange (10, 20, 30) \<and>
   (2::int) \<le> int (card (set ([(0, 0, 0), (255, 255, 255), (10, 20, 30)] :: rgb list))) \<and>
   int (length (medianCut [(0, 0, 0), (255, 255, 255), (10, 20, 30)] 2)) = 2 \<and>
   (1::int) \<le> 3 \<and>
   int (length (medianCut [(7, 7, 7), (7, 7, 7)] 3)) < 3 \<and>
   (\<exists>idx. largestBucket (selectLargest (splitLoop [[(7, 7, 7), (7, 7, 7)]] 3)) = Some idx \<and>
          length (splitLoop [[(7, 7, 7), (7, 7, 7)]] 3 ! idx) < 2)"
proof -
  have c: "(2::int) \<le> int (card (set ([(0, 0, 0), (255, 255, 255), (10, 20, 30)] :: rgb list)))"
    by simp
  have l: "int (length (medianCut [(7, 7, 7), (7, 7, 7)] 3)) < 3"
    by code_simp
  show ?thesis
    using medianCut_palette_size [of 2 "[(0, 0, 0), (255, 255, 255), (10, 20, 30)]"]
      medianCut_palette_size [of 3 "[(7, 7, 7), (7, 7, 7)]"] c l
    by simp
qed

section \<open>Properties of palette application and quantisation\<close>

lemma nearestLoop_Some:
  "nearest \<noteq> None \<Longrightarrow> nearestLoop color palette minDist nearest \<noteq> None"
  by (induction palette arbitrary: minDist nearest) (auto simp: Let_def)

lemma findNearestColor_Some:
  "palette \<noteq> [] \<Longrightarrow> \<exists>n. findNearestColor color palette = Some n"
  using nearestLoop_Some [of "Some (hd palette)" color palette PosInf]
  by (cases palette) (auto simp: findNearestColor_def)

lemma findNearestColor_empty: "findNearestColor color [] = None"
  by (simp add: findNearestColor_def)

lemma mapLoop_exit: "\<not> i < length d \<Longrightarrow> mapLoop d palette i out = Inr out"
  by (subst mapLoop.simps) simp

lemma mapLoop_throw:
  "i < length d \<Longrightarrow> findNearestColor (pixelAt d i) palette = None \<Longrightarrow>
   mapLoop d palette i out = Inl TypeError"
  by (subst mapLoop.simps) simp

lemma mapLoop_step:
  "i < length d \<Longrightarrow> findNearestColor (pixelAt d i) palette = Some nearest \<Longrightarrow>
   mapLoop d palette i out =
   mapLoop d palette (i + 4)
     (out[i := toUint8Clamp (fst nearest), i + 1 := toUint8Clamp (fst (snd nearest)),
          i + 2 := toUint8Clamp (snd (snd nearest)), i + 3 := d ! (i + 3)])"
  by (subst mapLoop.simps) simp

lemma mapLoop_result:
  assumes "4 dvd i" "4 dvd length d" "length out = length d" "palette \<noteq> []"
  shows "\<exists>out'. mapLoop d palette i out = Inr out' \<and> length out' = length d \<and>
           (\<forall>j < i. out' ! j = out ! j) \<and>
           (\<forall>p. i \<le> 4 * p \<and> 4 * p < length d \<longrightarrow>
                (\<forall>c < 4. out' ! (4 * p + c) = emitted d palette (4 * p) ! c))"
  using assms
proof (induction d palette i out rule: mapLoop.induct)
  case (1 d palette i out)
  show ?case
  proof (cases "i < length d")
    case False
    then show ?thesis using "1.prems"(3) by (auto simp: mapLoop_exit)
  next
    case True
    from "1.prems"(4) obtain nearest where n: "findNearestColor (pixelAt d i) palette = Some nearest"
      using findNearestColor_Some by blast
    let ?out1 = "out[i := toUint8Clamp (fst nearest), i + 1 := toUint8Clamp (fst (snd nearest)),
          i + 2 := toUint8Clamp (snd (snd nearest)), i + 3 := d ! (i + 3)]"
    from True "1.prems"(1,2) have i4: "i + 4 \<le> length d" by presburger
    have "4 dvd i + 4" using "1.prems"(1) by simp
    moreover have "length ?out1 = length d" using "1.prems"(3) by simp
    ultimately obtain out' where
      r: "mapLoop d palette (i + 4) ?out1 = Inr out'" and
      l: "length out' = length d" and
      keep: "\<forall>j < i + 4. out' ! j = ?out1 ! j" and
      rest: "\<forall>p. i + 4 \<le> 4 * p \<and> 4 * p < length d \<longrightarrow>
                (\<forall>c < 4. out' ! (4 * p + c) = emitted d palette (4 * p) ! c)"
      using "1.IH" [OF True n] "1.prems"(2,4) by blast
    have res: "mapLoop d palette i out = Inr out'"
      using mapLoop_step [OF True n] r by simp
    have old: "\<forall>j < i. out' ! j = out ! j"
      using keep by simp
    have here: "\<forall>c < 4. out' ! (i + c) = emitted d palette i ! c"
    proof (intro allI impI)
      fix c :: nat assume "c < 4"
      then consider "c = 0" | "c = 1" | "c = 2" | "c = 3" by linarith
      then show "out' ! (i + c) = emitted d palette i ! c"
        using keep i4 "1.prems"(3) n by cases (simp_all add: emitted_def)
    qed
    have all: "\<forall>p. i \<le> 4 * p \<and> 4 * p < length d \<longrightarrow>
                (\<forall>c < 4. out' ! (4 * p + c) = emitted d palette (4 * p) ! c)"
    proof (rule allI, rule impI)
      fix p assume p: "i \<le> 4 * p \<and> 4 * p < length d"
      show "\<forall>c < 4. out' ! (4 * p + c) = emitted d palette (4 * p) ! c"
      proof (cases "4 * p = i")
        case True
        then show ?thesis using here by simp
      next
        case False
        with p "1.prems"(1) have "i + 4 \<le> 4 * p" by presburger
        with rest p show ?thesis by blast
      qed
    qed
    from res l old all show ?thesis by blast
  qed
qed


lemma paletteDist_ofRGB:
  "paletteDist c (ofRGB q) = Num (of_int (distanceSquared c q))"
  by (cases c; cases q) (simp add: ofInt_def js_sub_def Let_def power2_eq_square)

lemma nearestLoop_firstMin:
  assumes "firstMin c pre i"
  shows "\<exists>i'. firstMin c (pre @ qs) i' \<and>
     nearestLoop c (map ofRGB qs) (Num (of_int (distanceSquared c (pre ! i)))) (Some (ofRGB (pre ! i)))
       = Some (ofRGB ((pre @ qs) ! i'))"
  using assms
proof (induction qs arbitrary: pre i)
  case Nil
  then show ?case by auto
next
  case (Cons q qs)
  let ?d = "distanceSquared c"
  from Cons.prems have i: "i < length pre"
    and mn: "\<forall>j < length pre. ?d (pre ! i) \<le> ?d (pre ! j)"
    and st: "\<forall>j < i. ?d (pre ! i) < ?d (pre ! j)"
    by (simp_all add: firstMin_def)
  show ?case
  proof (cases "?d q < ?d (pre ! i)")
    case True
    have fm: "firstMin c (pre @ [q]) (length pre)"
      unfolding firstMin_def
    proof (intro conjI allI impI)
      show "length pre < length (pre @ [q])" by simp
    next
      fix j assume "j < length (pre @ [q])"
      then consider "j < length pre" | "j = length pre" by fastforce
      then show "?d ((pre @ [q]) ! length pre) \<le> ?d ((pre @ [q]) ! j)"
      proof cases
        case 1
        with mn True show ?thesis by (fastforce simp: nth_append)
      next
        case 2
        then show ?thesis by simp
      qed
    next
      fix j assume "j < length pre"
      with mn True show "?d ((pre @ [q]) ! length pre) < ?d ((pre @ [q]) ! j)"
        by (fastforce simp: nth_append)
    qed
    from Cons.IH [OF fm] obtain i' where
      "firstMin c ((pre @ [q]) @ qs) i'"
      "nearestLoop c (map ofRGB qs) (Num (of_int (?d ((pre @ [q]) ! length pre))))
          (Some (ofRGB ((pre @ [q]) ! length pre))) = Some (ofRGB (((pre @ [q]) @ qs) ! i'))"
      by blast
    then show ?thesis
      using True by (auto simp: paletteDist_ofRGB Let_def)
  next
    case False
    have fm: "firstMin c (pre @ [q]) i"
      unfolding firstMin_def
    proof (intro conjI allI impI)
      show "i < length (pre @ [q])" using i by simp
    next
      fix j assume "j < length (pre @ [q])"
      then consider "j < length pre" | "j = length pre" by fastforce
      then show "?d ((pre @ [q]) ! i) \<le> ?d ((pre @ [q]) ! j)"
      proof cases
        case 1
        with mn i show ?thesis by (simp add: nth_append)
      next
        case 2
        with False i show ?thesis by (simp add: nth_append)
      qed
    next
      fix j assume "j < i"
      with st i show "?d ((pre @ [q]) ! i) < ?d ((pre @ [q]) ! j)"
        by (simp add: nth_append)
    qed
    from Cons.IH [OF fm] obtain i' where
      "firstMin c ((pre @ [q]) @ qs) i'"
      "nearestLoop c (map ofRGB qs) (Num (of_int (?d ((pre @ [q]) ! i))))
          (Some (ofRGB ((pre @ [q]) ! i))) = Some (ofRGB (((pre @ [q]) @ qs) ! i'))"
      by blast
    then show ?thesis
      using False i by (auto simp: paletteDist_ofRGB Let_def nth_append)
  qed
qed

lemma findNearestColor_firstMin:
  assumes "qs \<noteq> []"
  shows "\<exists>i. firstMin c qs i \<and> findNearestColor c (map ofRGB qs) = Some (ofRGB (qs ! i))"
proof -
  from assms obtain q rest where qs: "qs = q # rest" by (cases qs) auto
  have "firstMin c [q] 0" by (simp add: firstMin_def)
  from nearestLoop_firstMin [OF this, of rest] show ?thesis
    by (simp add: qs findNearestColor_def paletteDist_ofRGB Let_def)
qed

lemma toUint8Clamp_byte:
  assumes "0 \<le> v" "v \<le> 255"
  shows "uint (toUint8Clamp (ofInt v)) = v"
proof -
  have "uint (word_of_int v :: byte) = v"
    using assms by (simp add: uint_word_of_int take_bit_int_eq_self)
  moreover have "v = 0 \<Longrightarrow> uint (0 :: byte) = v" by simp
  moreover have "v = 255 \<Longrightarrow> uint (255 :: byte) = v" by simp
  ultimately show ?thesis
    using assms by (auto simp: ofInt_def roundHalfEven_of_int)
qed

lemma extractPixels_eq:
  "length d = 4 * n \<Longrightarrow> i = 4 * q \<Longrightarrow>
   extractPixels d i acc = acc @ map (\<lambda>p. pixelAt d (4 * p)) [q..<n]"
proof (induction d i acc arbitrary: q rule: extractPixels.induct)
  case (1 d i pixels)
  show ?case
  proof (cases "i < length d")
    case False
    with "1.prems" have "n \<le> q" by simp
    with False show ?thesis by (subst extractPixels.simps) simp
  next
    case True
    with "1.prems" have q: "q < n" by simp
    have "extractPixels d (i + 4) (pixels @ [pixelAt d i])
        = (pixels @ [pixelAt d i]) @ map (\<lambda>p. pixelAt d (4 * p)) [Suc q..<n]"
      using "1.IH" [OF True "1.prems"(1), of "Suc q"] "1.prems"(2) by simp
    with True q "1.prems"(2) show ?thesis
      by (subst extractPixels.simps) (simp add: upt_conv_Cons)
  qed
qed


lemma validImage_length:
  "validImage img \<Longrightarrow> 4 dvd length (data img) \<and> data img \<noteq> []"
  by (auto simp: validImage_def)

lemma mapLoop_image:
  assumes "validImage img" "palette \<noteq> []"
  shows "\<exists>out. mapLoop (data img) palette 0 (replicate (length (data img)) 0) = Inr out \<and>
           length out = length (data img) \<and>
           (\<forall>p < width img * height img. \<forall>c < 4.
              out ! (4 * p + c) = emitted (data img) palette (4 * p) ! c)"
proof -
  have "4 dvd length (data img)" using assms(1) by (simp add: validImage_length)
  from mapLoop_result [OF _ this _ assms(2), of 0 "replicate (length (data img)) 0"]
  obtain out where "mapLoop (data img) palette 0 (replicate (length (data img)) 0) = Inr out"
    "length out = length (data img)"
    "\<forall>p. 4 * p < length (data img) \<longrightarrow> (\<forall>c < 4. out ! (4 * p + c) = emitted (data img) palette (4 * p) ! c)"
    by auto
  moreover have "\<forall>p < width img * height img. 4 * p < length (data img)"
    using assms(1) by (simp add: validImage_def)
  ultimately show ?thesis by blast
qed

lemma emitted_alpha:
  "palette \<noteq> [] \<Longrightarrow> emitted d palette i ! 3 = d ! (i + 3)"
  using findNearestColor_Some [of palette "pixelAt d i"] by (auto simp: emitted_def)

lemma applyPalette_empty:
  "data img \<noteq> [] \<Longrightarrow> applyPalette img [] = Inl TypeError"
  by (simp add: applyPalette_def mapLoop_throw findNearestColor_empty)

text \<open>
  Claim C2.  \<^verbatim>\<open>applyPalette\<close> called with an empty palette on a buffer that holds at least
  one pixel does not return an image: the call ends in the \<^verbatim>\<open>TypeError\<close> raised at the
  first pixel, so no pixel receives a default colour.
\<close>

theorem applyPalette_empty_rejected:
  "data img \<noteq> [] \<Longrightarrow> applyPalette img [] = Inl TypeError"
  by (rule applyPalette_empty)

theorem applyPalette_empty_rejected_witness:
  "data \<lparr>data = [10, 20, 30, 255], width = 1, height = 1\<rparr> \<noteq> [] \<and>
   applyPalette \<lparr>data = [10, 20, 30, 255], width = 1, height = 1\<rparr> [] = Inl TypeError"
  using applyPalette_empty_rejected [of "\<lparr>data = [10, 20, 30, 255], width = 1, height = 1\<rparr>"]
  by simp

text \<open>
  Claim C6.  For a valid buffer and a non-empty palette of colours with channels in
  \<open>[0, 255]\<close>, \<^verbatim>\<open>applyPalette\<close> returns an image in which the RGB triple of every pixel is
  a member of the palette: the entry that minimises \<open>distanceSquared\<close> to the colour of
  the source pixel, the first such entry in palette order.
\<close>

theorem applyPalette_nearest:
  assumes "validImage img" "palette \<noteq> []" "\<forall>q \<in> set palette. inRange q"
    and "p < width img * height img"
  shows "\<exists>out i. applyPalette img (map ofRGB palette) = Inr out \<and>
            firstMin (pixelAt (data img) (4 * p)) palette i \<and>
            pixelAt (data out) (4 * p) = palette ! i \<and>
            pixelAt (data out) (4 * p) \<in> set palette"
proof -
  let ?pal = "map ofRGB palette"
  from assms(2) have ne: "?pal \<noteq> []" by simp
  from mapLoop_image [OF assms(1) ne] obtain out where
    r: "mapLoop (data img) ?pal 0 (replicate (length (data img)) 0) = Inr out" and
    e: "\<forall>p < width img * height img. \<forall>c < 4.
              out ! (4 * p + c) = emitted (data img) ?pal (4 * p) ! c"
    by blast
  from findNearestColor_firstMin [OF assms(2)] obtain i where
    fm: "firstMin (pixelAt (data img) (4 * p)) palette i" and
    n: "findNearestColor (pixelAt (data img) (4 * p)) ?pal = Some (ofRGB (palette ! i))"
    by blast
  obtain r g b where q: "palette ! i = (r, g, b)" by (metis prod_cases3)
  from fm have i: "i < length palette" by (simp add: firstMin_def)
  with assms(3) q have rng: "0 \<le> r" "r \<le> 255" "0 \<le> g" "g \<le> 255" "0 \<le> b" "b \<le> 255"
    using nth_mem [OF i] by fastforce+
  have em: "emitted (data img) ?pal (4 * p) =
      [toUint8Clamp (ofInt r), toUint8Clamp (ofInt g), toUint8Clamp (ofInt b), data img ! (4 * p + 3)]"
    by (simp add: emitted_def n q)
  from e assms(4) have ee: "\<And>c. c < 4 \<Longrightarrow> out ! (4 * p + c) = emitted (data img) ?pal (4 * p) ! c"
    by blast
  have "pixelAt out (4 * p) = (r, g, b)"
    using rng ee [of 0] ee [of 1] ee [of 2] by (simp add: pixelAt_def em toUint8Clamp_byte)
  with q have px: "pixelAt out (4 * p) = palette ! i" by simp
  moreover from px i have "pixelAt out (4 * p) \<in> set palette" by simp
  moreover have "applyPalette img ?pal =
      Inr \<lparr>data = out, width = width img, height = height img\<rparr>"
    using r by (simp add: applyPalette_def)
  ultimately show ?thesis
    using fm by auto
qed

theorem applyPalette_nearest_witness:
  "validImage \<lparr>data = [10, 20, 30, 255, 200, 100, 0, 7], width = 2, height = 1\<rparr> \<and>
   [(0, 0, 0), (255, 100, 0)] \<noteq> ([] :: rgb list) \<and>
   inRange (0, 0, 0) \<and> inRange (255, 100, 0) \<and>
   (1 :: nat) < width \<lparr>data = [10, 20, 30, 255, 200, 100, 0, 7], width = 2, height = 1\<rparr> *
        height \<lparr>data = [10, 20, 30, 255, 200, 100, 0, 7], width = 2, height = 1\<rparr> \<and>
   (\<exists>out i. applyPalette \<lparr>data = [10, 20, 30, 255, 200, 100, 0, 7], width = 2, height = 1\<rparr>
                (map ofRGB [(0, 0, 0), (255, 100, 0)]) = Inr out \<and>
        firstMin (pixelAt (data \<lparr>data = [10, 20, 30, 255, 200, 100, 0, 7], width = 2, height = 1\<rparr>) (4 * 1))
           [(0, 0, 0), (255, 100, 0)] i \<and>
        pixelAt (data out) (4 * 1) = [(0, 0, 0), (255, 100, 0)] ! i \<and>
        pixelAt (data out) (4 * 1) \<in> set [(0, 0, 0), (255, 100, 0)])"
  using applyPalette_nearest [of "\<lparr>data = [10, 20, 30, 255, 200, 100, 0, 7], width = 2, height = 1\<rparr>"
      "[(0, 0, 0), (255, 100, 0)]" 1]
  by (simp add: validImage_def)

lemma medianCut_nonempty: "medianCut pixels k \<noteq> []"
  using splitLoop_length_ge [of "[pixels]" k] by (auto simp: medianCut_def)

text \<open>
  Claim C9.  For a valid buffer, \<^verbatim>\<open>quantizeImage\<close> returns an image whose alpha byte at
  every pixel is the alpha byte of the input pixel, and so does \<^verbatim>\<open>applyPalette\<close> whenever
  it returns an image, which it does for every non-empty palette.
\<close>

theorem alpha_preserved:
  assumes "validImage img" "p < width img * height img"
  shows "(\<exists>out. quantizeImage img numColors = Inr out \<and>
            data out ! (4 * p + 3) = data img ! (4 * p + 3)) \<and>
         (\<forall>out. applyPalette img palette = Inr out \<longrightarrow>
            data out ! (4 * p + 3) = data img ! (4 * p + 3)) \<and>
         (palette \<noteq> [] \<longrightarrow> (\<exists>out. applyPalette img palette = Inr out))"
proof (intro conjI allI impI)
  let ?pal = "medianCut (extractPixels (data img) 0 []) numColors"
  from mapLoop_image [OF assms(1) medianCut_nonempty, of "extractPixels (data img) 0 []" numColors]
  obtain out where
    "mapLoop (data img) ?pal 0 (replicate (length (data img)) 0) = Inr out"
    "\<forall>p < width img * height img. \<forall>c < 4.
        out ! (4 * p + c) = emitted (data img) ?pal (4 * p) ! c"
    by blast
  moreover from this assms(2) have "out ! (4 * p + 3) = emitted (data img) ?pal (4 * p) ! 3"
    by simp
  ultimately show "\<exists>out. quantizeImage img numColors = Inr out \<and>
            data out ! (4 * p + 3) = data img ! (4 * p + 3)"
    by (simp add: quantizeImage_def Let_def emitted_alpha [OF medianCut_nonempty])
next
  fix out assume a: "applyPalette img palette = Inr out"
  show "data out ! (4 * p + 3) = data img ! (4 * p + 3)"
  proof (cases "palette = []")
    case True
    with a assms(1) show ?thesis
      using applyPalette_empty [of img] by (simp add: validImage_length)
  next
    case False
    from mapLoop_image [OF assms(1) False] obtain out' where
      "mapLoop (data img) palette 0 (replicate (length (data img)) 0) = Inr out'"
      "\<forall>p < width img * height img. \<forall>c < 4.
          out' ! (4 * p + c) = emitted (data img) palette (4 * p) ! c"
      by blast
    moreover from this assms(2) have "out' ! (4 * p + 3) = emitted (data img) palette (4 * p) ! 3"
      by simp
    ultimately show ?thesis
      using a by (auto simp: applyPalette_def emitted_alpha [OF False])
  qed
next
  assume "palette \<noteq> []"
  from mapLoop_image [OF assms(1) this] show "\<exists>out. applyPalette img palette = Inr out"
    by (auto simp: applyPalette_def)
qed


theorem alpha_preserved_witness:
  "validImage \<lparr>data = [10, 20, 30, 255, 200, 100, 0, 7], width = 2, height = 1\<rparr> \<and>
   (1 :: nat) < width \<lparr>data = [10, 20, 30, 255, 200, 100, 0, 7], width = 2, height = 1\<rparr> *
        height \<lparr>data = [10, 20, 30, 255, 200, 100, 0, 7], width = 2, height = 1\<rparr> \<and>
   (\<exists>out. quantizeImage \<lparr>data = [10, 20, 30, 255, 200, 100, 0, 7], width = 2, height = 1\<rparr> 2 = Inr out \<and>
      data out ! (4 * 1 + 3) = 7) \<and>
   [(Num 0, Num 0, Num 0)] \<noteq> [] \<and>
   (\<exists>out. applyPalette \<lparr>data = [10, 20, 30, 255, 200, 100, 0, 7], width = 2, height = 1\<rparr>
       [(Num 0, Num 0, Num 0)] = Inr out \<and> data out ! (4 * 1 + 3) = 7)"
proof -
  let ?img = "\<lparr>data = [10, 20, 30, 255, 200, 100, 0, 7 :: byte], width = 2, height = 1\<rparr>"
  have v: "validImage ?img" by (simp add: validImage_def)
  have p: "(1 :: nat) < width ?img * height ?img" by simp
  note t = alpha_preserved [OF v p, of 2 "[(Num 0, Num 0, Num 0)]"]
  from t have "\<exists>out. quantizeImage ?img 2 = Inr out \<and> data out ! (4 * 1 + 3) = 7"
    by simp
  moreover from t have "\<exists>out. applyPalette ?img [(Num 0, Num 0, Num 0)] = Inr out \<and>
      data out ! (4 * 1 + 3) = 7"
    by auto
  ultimately show ?thesis using v p by simp
qed

lemma findNearestColor_single: "findNearestColor c [x] = Some x"
  by (simp add: findNearestColor_def Let_def)

lemma medianCut_one: "medianCut pixels 1 = [averageBucket pixels]"
  by (simp add: medianCut_def splitLoop_done)

lemma sum_list_bytes:
  "(\<forall>x \<in> set xs. 0 \<le> f x \<and> f x \<le> (255 :: int)) \<Longrightarrow>
   0 \<le> sum_list (map f xs) \<and> sum_list (map f xs) \<le> 255 * int (length xs)"
  by (induction xs) auto

lemma rounded_quotient_byte:
  assumes "0 \<le> s" "s \<le> 255 * int n" "0 < n"
  shows "0 \<le> \<lfloor>(of_int s / of_nat n :: real) + 1 / 2\<rfloor> \<and> \<lfloor>(of_int s / of_nat n :: real) + 1 / 2\<rfloor> \<le> 255"
proof -
  have "0 \<le> (of_int s / of_nat n :: real)" using assms by simp
  then have lo: "0 \<le> \<lfloor>(of_int s / of_nat n :: real) + 1 / 2\<rfloor>" by simp
  have "(of_int s :: real) \<le> of_int (255 * int n)" using assms(2) by (simp only: of_int_le_iff)
  then have "(of_int s / of_nat n :: real) \<le> 255"
    using assms(3) by (simp add: divide_le_eq)
  then have "(of_int s / of_nat n :: real) + 1 / 2 < 256" by simp
  then have "\<lfloor>(of_int s / of_nat n :: real) + 1 / 2\<rfloor> < 256"
    by (simp add: floor_less_iff)
  with lo show ?thesis by simp
qed

lemma uint_byte_le: "uint (x :: byte) \<le> 255"
  using uint_bounded [of x] by simp

lemma js_round_div:
  "0 < n \<Longrightarrow> js_round (js_div (ofInt s) (ofInt (int n))) = ofInt \<lfloor>(of_int s / of_nat n :: real) + 1 / 2\<rfloor>"
  by (simp add: ofInt_def)

text \<open>
  Claim C4.  For a valid buffer, \<^verbatim>\<open>quantizeImage\<close> with \<open>numColors = 1\<close> returns an image
  in which each of the R, G and B bytes of every pixel is the average of that channel
  over all pixels of the input, rounded to the nearest integer (a half upwards).
\<close>

theorem quantizeImage_one_color:
  assumes "validImage img" "p < width img * height img"
  shows "\<exists>out. quantizeImage img 1 = Inr out \<and>
     uint (data out ! (4 * p)) =
       \<lfloor>(of_int (sum_list (map (\<lambda>q. uint (data img ! (4 * q))) [0..<width img * height img]))
           / of_nat (width img * height img) :: real) + 1 / 2\<rfloor> \<and>
     uint (data out ! (4 * p + 1)) =
       \<lfloor>(of_int (sum_list (map (\<lambda>q. uint (data img ! (4 * q + 1))) [0..<width img * height img]))
           / of_nat (width img * height img) :: real) + 1 / 2\<rfloor> \<and>
     uint (data out ! (4 * p + 2)) =
       \<lfloor>(of_int (sum_list (map (\<lambda>q. uint (data img ! (4 * q + 2))) [0..<width img * height img]))
           / of_nat (width img * height img) :: real) + 1 / 2\<rfloor>"
proof -
  let ?d = "data img" and ?n = "width img * height img"
  let ?pixels = "map (\<lambda>q. pixelAt ?d (4 * q)) [0..<?n]"
  let ?sR = "sum_list (map (\<lambda>q. uint (?d ! (4 * q))) [0..<?n])"
  let ?sG = "sum_list (map (\<lambda>q. uint (?d ! (4 * q + 1))) [0..<?n])"
  let ?sB = "sum_list (map (\<lambda>q. uint (?d ! (4 * q + 2))) [0..<?n])"
  let ?v = "\<lambda>s. \<lfloor>(of_int s / of_nat ?n :: real) + 1 / 2\<rfloor>"
  from assms(1) have len: "length ?d = 4 * ?n" and n: "0 < ?n"
    by (simp_all add: validImage_def)
  have px: "extractPixels ?d 0 [] = ?pixels"
    using extractPixels_eq [OF len, of 0 0 "[]"] by simp
  have sums: "sum_list (map (chan 0) ?pixels) = ?sR" "sum_list (map (chan 1) ?pixels) = ?sG"
    "sum_list (map (chan 2) ?pixels) = ?sB"
    by (simp_all add: comp_def pixelAt_def)
  have avg: "averageBucket ?pixels = (ofInt (?v ?sR), ofInt (?v ?sG), ofInt (?v ?sB))"
    unfolding averageBucket_def Let_def sums using js_round_div [OF n] by simp
  have "0 \<le> ?sR \<and> ?sR \<le> 255 * int (length [0..<?n])"
    by (rule sum_list_bytes) (simp add: uint_byte_le)
  then have bR: "0 \<le> ?v ?sR \<and> ?v ?sR \<le> 255"
    using n by (intro rounded_quotient_byte) simp_all
  have "0 \<le> ?sG \<and> ?sG \<le> 255 * int (length [0..<?n])"
    by (rule sum_list_bytes) (simp add: uint_byte_le)
  then have bG: "0 \<le> ?v ?sG \<and> ?v ?sG \<le> 255"
    using n by (intro rounded_quotient_byte) simp_all
  have "0 \<le> ?sB \<and> ?sB \<le> 255 * int (length [0..<?n])"
    by (rule sum_list_bytes) (simp add: uint_byte_le)
  then have bB: "0 \<le> ?v ?sB \<and> ?v ?sB \<le> 255"
    using n by (intro rounded_quotient_byte) simp_all
  let ?pal = "[averageBucket ?pixels]"
  from mapLoop_image [OF assms(1), of ?pal] obtain out where
    r: "mapLoop ?d ?pal 0 (replicate (length ?d) 0) = Inr out" and
    e: "\<forall>p < ?n. \<forall>c < 4. out ! (4 * p + c) = emitted ?d ?pal (4 * p) ! c"
    by auto
  from e assms(2) have ee: "\<And>c. c < 4 \<Longrightarrow> out ! (4 * p + c) = emitted ?d ?pal (4 * p) ! c"
    by blast
  have em: "emitted ?d ?pal (4 * p) =
      [toUint8Clamp (ofInt (?v ?sR)), toUint8Clamp (ofInt (?v ?sG)), toUint8Clamp (ofInt (?v ?sB)),
       ?d ! (4 * p + 3)]"
    by (simp add: emitted_def findNearestColor_single avg)
  have "uint (out ! (4 * p)) = ?v ?sR" "uint (out ! (4 * p + 1)) = ?v ?sG"
    "uint (out ! (4 * p + 2)) = ?v ?sB"
    using ee [of 0] ee [of 1] ee [of 2] bR bG bB by (simp_all add: em toUint8Clamp_byte)
  moreover have "quantizeImage img 1 = Inr \<lparr>data = out, width = width img, height = height img\<rparr>"
    using r by (simp add: quantizeImage_def px medianCut_one)
  ultimately show ?thesis by simp
qed

theorem quantizeImage_one_color_witness:
  "validImage \<lparr>data = [10, 20, 30, 255, 200, 100, 0, 7], width = 2, height = 1\<rparr> \<and>
   (1 :: nat) < width \<lparr>data = [10, 20, 30, 255, 200, 100, 0, 7], width = 2, height = 1\<rparr> *
        height \<lparr>data = [10, 20, 30, 255, 200, 100, 0, 7], width = 2, height = 1\<rparr> \<and>
   (\<exists>out. quantizeImage \<lparr>data = [10, 20, 30, 255, 200, 100, 0, 7], width = 2, height = 1\<rparr> 1 = Inr out \<and>
      uint (data out ! (4 * 1)) = 105 \<and> uint (data out ! (4 * 1 + 1)) = 60 \<and>
      uint (data out ! (4 * 1 + 2)) = 15)"
proof -
  let ?img = "\<lparr>data = [10, 20, 30, 255, 200, 100, 0, 7 :: byte], width = 2, height = 1\<rparr>"
  have v: "validImage ?img" by (simp add: validImage_def)
  have p: "(1 :: nat) < width ?img * height ?img" by simp
  have u: "[0..<2] = [0, Suc 0]" by (simp add: upt_conv_Cons)
  have f: "\<lfloor>211 / 2 :: real\<rfloor> = 105" "\<lfloor>121 / 2 :: real\<rfloor> = 60" "\<lfloor>31 / 2 :: real\<rfloor> = 15"
    by (simp_all add: floor_eq_iff)
  from quantizeImage_one_color [OF v p] v p show ?thesis
    by (simp add: u f)
qed

section \<open>Properties of the choice of the number of colours\<close>

lemma nearestLoop_mem:
  "nearestLoop c ps m nearest = Some n \<Longrightarrow> nearest = Some n \<or> n \<in> set ps"
  by (induction ps arbitrary: m nearest) (auto simp: Let_def split: if_splits)

lemma findNearestColor_mem:
  assumes "findNearestColor c palette = Some n"
  shows "n \<in> set palette"
proof (cases palette)
  case Nil
  then show ?thesis using assms by (simp add: findNearestColor_def)
next
  case (Cons p ps)
  from assms have "nearestLoop c (p # ps) PosInf (Some p) = Some n"
    by (simp only: findNearestColor_def Cons list.case)
  from nearestLoop_mem [OF this] show ?thesis by (auto simp: Cons)
qed

lemma paletteDist_nonneg:
  "finiteColor n \<Longrightarrow> nonnegNum (paletteDist c n)"
proof -
  assume f: "finiteColor n"
  obtain r g b where c: "c = (r, g, b)" by (metis prod_cases3)
  obtain pr pg pb where n: "n = (pr, pg, pb)" by (metis prod_cases3)
  from f n obtain x y z where "pr = Num x" "pg = Num y" "pb = Num z"
    by (cases pr; cases pg; cases pb) auto
  then show ?thesis
    by (simp add: c n ofInt_def js_sub_def Let_def)
qed

lemma totalDistLoop_nonneg:
  assumes "palette \<noteq> []" "\<forall>c \<in> set palette. finiteColor c" "nonnegNum acc"
  shows "\<exists>t. totalDistLoop ps palette acc = Inr t \<and> nonnegNum t"
  using assms(3)
proof (induction ps arbitrary: acc)
  case Nil
  then show ?case by simp
next
  case (Cons p ps)
  from assms(1) obtain n where n: "findNearestColor p palette = Some n"
    using findNearestColor_Some by blast
  then have "finiteColor n" using assms(2) findNearestColor_mem by blast
  then have "nonnegNum (paletteDist p n)" by (rule paletteDist_nonneg)
  with Cons.prems have "nonnegNum (js_add acc (paletteDist p n))"
    by (cases acc; cases "paletteDist p n") auto
  from Cons.IH [OF this] n show ?case by simp
qed

lemma distortionLoop_nonneg:
  assumes "pixels \<noteq> []" "\<forall>d \<in> set acc. nonnegNum d"
  shows "\<exists>ds. distortionLoop pixels maxK k acc = Inr ds \<and> (\<forall>d \<in> set ds. nonnegNum d)"
  using assms
proof (induction pixels maxK k acc rule: distortionLoop.induct)
  case (1 pixels maxK k distortions)
  show ?case
  proof (cases "k \<le> min maxK 32")
    case False
    then show ?thesis using "1.prems"(2) by (subst distortionLoop.simps) auto
  next
    case True
    have "medianCut pixels k \<noteq> []" by (rule medianCut_nonempty)
    moreover have "\<forall>c \<in> set (medianCut pixels k). finiteColor c"
      using "1.prems"(1) by (rule medianCut_finite)
    ultimately obtain t where t: "totalDistLoop pixels (medianCut pixels k) (Num 0) = Inr t"
      "nonnegNum t"
      using totalDistLoop_nonneg [of "medianCut pixels k" "Num 0" pixels] by auto
    with "1.prems"(2) have "\<forall>d \<in> set (distortions @ [t]). nonnegNum d" by simp
    from "1.IH" [OF True t(1) "1.prems"(1) this] True t(1) show ?thesis
      by (subst distortionLoop.simps) auto
  qed
qed

lemma length_rateOfChange: "length (rateOfChange ds) = length ds - 1"
  by (induction ds rule: rateOfChange.induct) simp_all

lemma nth_rateOfChange:
  "Suc i < length ds \<Longrightarrow>
   rateOfChange ds ! i = js_fl (js_div (js_sub (ds ! i) (ds ! Suc i)) (ds ! i))"
proof (induction ds arbitrary: i rule: rateOfChange.induct)
  case (1 prev cur rest)
  then show ?case by (cases i) simp_all
qed simp_all

lemma zero_step_rate:
  assumes "nonnegNum cur"
  shows "js_fl (js_div (js_sub (Num 0) cur) (Num 0)) = (if cur = Num 0 then NaN else NegInf)"
  using assms by (cases cur) (auto simp: js_sub_def)

lemma distortions_five_pixels:
  "distortionLoop
     (samplePixels
        (data \<lparr>data = [0, 0, 0, 255, 0, 0, 0, 255, 0, 0, 0, 255, 0, 0, 0, 255, 255, 255, 255, 255],
               width = 5, height = 1\<rparr>) 0 []) 3 1 []
     = Inr [Num 97539, Num 0, Num 0]"
  by code_simp

lemma samplePixels_nonempty: "acc \<noteq> [] \<Longrightarrow> samplePixels d i acc \<noteq> []"
proof (induction d i acc rule: samplePixels.induct)
  case (1 d i pixels)
  then show ?case by (subst samplePixels.simps) simp
qed

lemma samplePixels_valid: "validImage img \<Longrightarrow> samplePixels (data img) 0 [] \<noteq> []"
proof -
  assume "validImage img"
  then have "0 < length (data img)" by (simp add: validImage_def)
  then have "samplePixels (data img) 0 [] = samplePixels (data img) 16 [pixelAt (data img) 0]"
    by (subst samplePixels.simps) simp
  then show ?thesis by (simp add: samplePixels_nonempty)
qed

text \<open>
  Claim C1 says that a distortion of exactly 0 at position \<open>i - 1\<close> is guarded inside
  \<^verbatim>\<open>determineBestK\<close>, for instance by taking that step's rate as 0, so that the rate of
  change is well defined for every buffer and \<open>maxK\<close>.  The code divides without a guard.
  For the image of five pixels below (the sample holds two colours) and \<open>maxK = 3\<close> the
  distortions are 97539, 0 and 0, and the rate of the last step is \<open>0 / 0 = NaN\<close>: neither
  0 nor any finite number.
\<close>

theorem determineBestK_zero_distortion_counterexample:
  "distortionLoop
     (samplePixels
        (data \<lparr>data = [0, 0, 0, 255, 0, 0, 0, 255, 0, 0, 0, 255, 0, 0, 0, 255, 255, 255, 255, 255],
               width = 5, height = 1\<rparr>) 0 []) 3 1 []
     = Inr [Num 97539, Num 0, Num 0] \<and>
   rateOfChange [Num 97539, Num 0, Num 0] = [Num 1, NaN] \<and>
   rateOfChange [Num 97539, Num 0, Num 0] ! 1 \<noteq> Num 0 \<and>
   \<not> isFinite (rateOfChange [Num 97539, Num 0, Num 0] ! 1)"
  using distortions_five_pixels by (simp add: js_sub_def)

text \<open>
  Claim C1, amended.  \<^verbatim>\<open>determineBestK\<close> has no guard for a distortion of exactly 0 at
  position \<open>i - 1\<close>: the rate of that step is the quotient as the language computes it,
  \<open>NaN\<close> when the distortion at \<open>i\<close> is also 0 and \<open>-Infinity\<close> otherwise.  No error is
  raised: for every valid buffer and every \<open>maxK\<close> the distortions are computed, the rate
  list has one entry per step, and \<^verbatim>\<open>determineBestK\<close> returns a number that is at least 2.
\<close>

theorem determineBestK_rates:
  assumes "validImage img"
  shows "\<exists>ds. distortionLoop (samplePixels (data img) 0 []) maxK 1 [] = Inr ds \<and>
           length (rateOfChange ds) = length ds - 1 \<and>
           (\<forall>i. Suc i < length ds \<and> ds ! i = Num 0 \<longrightarrow>
              rateOfChange ds ! i = (if ds ! Suc i = Num 0 then NaN else NegInf)) \<and>
           (\<exists>k. determineBestK img maxK = Inr k \<and> 2 \<le> k)"
proof -
  let ?px = "samplePixels (data img) 0 []"
  have ne: "?px \<noteq> []" using assms by (rule samplePixels_valid)
  from distortionLoop_nonneg [OF ne, of "[]" maxK 1] obtain ds where
    ds: "distortionLoop ?px maxK 1 [] = Inr ds" and nn: "\<forall>d \<in> set ds. nonnegNum d"
    by auto
  have "\<forall>i. Suc i < length ds \<and> ds ! i = Num 0 \<longrightarrow>
      rateOfChange ds ! i = (if ds ! Suc i = Num 0 then NaN else NegInf)"
  proof (intro allI impI)
    fix i assume a: "Suc i < length ds \<and> ds ! i = Num 0"
    then have "nonnegNum (ds ! Suc i)" using nn by simp
    then show "rateOfChange ds ! i = (if ds ! Suc i = Num 0 then NaN else NegInf)"
      using a by (simp add: nth_rateOfChange zero_step_rate)
  qed
  moreover have "\<exists>k. determineBestK img maxK = Inr k \<and> 2 \<le> k"
    using ds ne by (simp add: determineBestK_def Let_def)
  ultimately show ?thesis using ds by (simp add: length_rateOfChange)
qed

theorem determineBestK_rates_witness:
  "validImage \<lparr>data = [0, 0, 0, 255, 0, 0, 0, 255, 0, 0, 0, 255, 0, 0, 0, 255, 255, 255, 255, 255],
               width = 5, height = 1\<rparr> \<and>
   (\<exists>ds. distortionLoop
          (samplePixels
            (data \<lparr>data = [0, 0, 0, 255, 0, 0, 0, 255, 0, 0, 0, 255, 0, 0, 0, 255, 255, 255, 255, 255],
                   width = 5, height = 1\<rparr>) 0 []) 3 1 [] = Inr ds \<and>
        length (rateOfChange ds) = length ds - 1 \<and>
        Suc 1 < length ds \<and> ds ! 1 = Num 0 \<and> ds ! Suc 1 = Num 0 \<and> rateOfChange ds ! 1 = NaN \<and>
        (\<exists>k. determineBestK
               \<lparr>data = [0, 0, 0, 255, 0, 0, 0, 255, 0, 0, 0, 255, 0, 0, 0, 255, 255, 255, 255, 255],
                width = 5, height = 1\<rparr> 3 = Inr k \<and> 2 \<le> k))"
proof -
  let ?img = "\<lparr>data = [0, 0, 0, 255, 0, 0, 0, 255, 0, 0, 0, 255, 0, 0, 0, 255, 255, 255, 255, 255 :: byte],
               width = 5, height = 1\<rparr>"
  have v: "validImage ?img"
    by (simp add: validImage_def)
  have d: "distortionLoop (samplePixels (data ?img) 0 []) 3 1 [] = Inr [Num 97539, Num 0, Num 0]"
    by code_simp
  from determineBestK_rates [OF v, of 3] obtain ds where
    ds: "distortionLoop (samplePixels (data ?img) 0 []) 3 1 [] = Inr ds" and
    l: "length (rateOfChange ds) = length ds - 1" and
    z: "\<forall>i. Suc i < length ds \<and> ds ! i = Num 0 \<longrightarrow>
          rateOfChange ds ! i = (if ds ! Suc i = Num 0 then NaN else NegInf)" and
    k: "\<exists>k. determineBestK ?img 3 = Inr k \<and> 2 \<le> k"
    by blast
  from ds d have e: "ds = [Num 97539, Num 0, Num 0]" by simp
  then have i: "Suc 1 < length ds" "ds ! 1 = Num 0" "ds ! Suc 1 = Num 0" by simp_all
  with z have "rateOfChange ds ! 1 = NaN" by presburger
  with v ds l i k show ?thesis by blast
qed

section \<open>Properties of grid detection and downscaling\<close>

lemma findPeaks_short: "length d < 3 \<Longrightarrow> findPeaks d distance h = []"
  unfolding findPeaks_def by (subst findPeaksLoop.simps) simp

lemma spacing_short: "length peaks < 2 \<Longrightarrow> spacing peaks = []"
  by (cases peaks rule: spacing.cases) simp_all

lemma median_empty: "median [] = 1"
  by (simp add: median_def)

lemma seedLoop_length:
  assumes "\<forall>j < k. j * step < length colors"
  shows "length (seedLoop colors k step i cs) = length cs + (k - i)"
  using assms
proof (induction colors k step i cs rule: seedLoop.induct)
  case (1 colors k step i centroids)
  show ?case
  proof (cases "i < k")
    case True
    with "1.prems" have c: "i < k \<and> i * step < length colors" by simp
    from "1.IH" [OF c "1.prems"] c show ?thesis
      by (subst seedLoop.simps) auto
  next
    case False
    then show ?thesis by (subst seedLoop.simps) simp
  qed
qed

lemma seed_positions:
  assumes "0 < length colors" "j < k"
  shows "j * (length colors div k) < length colors"
proof (cases "length colors div k = 0")
  case True
  then show ?thesis using assms(1) by simp
next
  case False
  have "j * (length colors div k) < k * (length colors div k)"
    using assms(2) False by simp
  also have "\<dots> \<le> length colors" by simp
  finally show ?thesis .
qed

lemma seeds_length:
  "0 < length colors \<Longrightarrow> length (seedLoop colors k (length colors div k) 0 []) = k"
  using seedLoop_length [of k "length colors div k" colors 0 "[]"] seed_positions [of colors]
  by simp

lemma nearestClusterLoop_bound:
  "nearestClusterLoop color cs i m n = r \<Longrightarrow> r = n \<or> (i \<le> r \<and> r < i + length cs)"
proof (induction cs arbitrary: i m n)
  case Nil
  then show ?case by simp
next
  case (Cons c cs)
  show ?case
  proof (cases "js_lt (Num (colorDistance color c)) m")
    case True
    with Cons.prems have "nearestClusterLoop color cs (i + 1) (Num (colorDistance color c)) i = r"
      by (simp add: Let_def)
    from Cons.IH [OF this] show ?thesis by auto
  next
    case False
    with Cons.prems have "nearestClusterLoop color cs (i + 1) m n = r"
      by (simp add: Let_def)
    from Cons.IH [OF this] show ?thesis by auto
  qed
qed

lemma nearestCluster_less:
  "cs \<noteq> [] \<Longrightarrow> nearestClusterLoop color cs 0 PosInf 0 < length cs"
  using nearestClusterLoop_bound [of color cs 0 PosInf 0, OF refl] by auto

lemma assignLoop_total:
  assumes "centroids \<noteq> []" "length centroids \<le> length clusters"
  shows "\<exists>cl. assignLoop colors centroids clusters = Inr cl \<and> length cl = length clusters"
  using assms(2)
proof (induction colors arbitrary: clusters)
  case Nil
  then show ?case by simp
next
  case (Cons color rest)
  let ?n = "nearestClusterLoop color centroids 0 PosInf 0"
  have n: "?n < length clusters"
    using nearestCluster_less [OF assms(1), of color] Cons.prems by simp
  have "length centroids \<le> length (clusters[?n := clusters ! ?n @ [color]])"
    using Cons.prems by simp
  from Cons.IH [OF this] n show ?case by (simp add: Let_def)
qed

lemma updateLoop_length: "length (updateLoop clusters n i cs) = length cs"
  by (induction n arbitrary: i cs) simp_all

lemma kmeansLoop_total:
  assumes "0 < k" "length centroids = k"
  shows "\<exists>cs. kmeansLoop colors k iter centroids = Inr cs \<and> length cs = k"
  using assms
proof (induction colors k iter centroids rule: kmeansLoop.induct)
  case (1 colors k iter centroids)
  show ?case
  proof (cases "iter < maxIterations")
    case False
    then show ?thesis using "1.prems" by (subst kmeansLoop.simps) simp
  next
    case True
    from "1.prems" obtain cl where cl: "assignLoop colors centroids (replicate k []) = Inr cl"
      using assignLoop_total [of centroids "replicate k []" colors] by auto
    have "length (updateLoop cl k 0 centroids) = k"
      using "1.prems" by (simp add: updateLoop_length)
    from "1.IH" [OF True cl "1.prems"(1) this] True cl show ?thesis
      by (subst kmeansLoop.simps) simp
  qed
qed

lemma largestLoop_bound:
  "largestLoop clusters n i m l = r \<Longrightarrow> r = l \<or> (i \<le> r \<and> r < i + n)"
proof (induction n arbitrary: i m l)
  case 0
  then show ?case by simp
next
  case (Suc n)
  show ?case
  proof (cases "length (clusters ! i) > m")
    case True
    with Suc.prems have "largestLoop clusters n (i + 1) (length (clusters ! i)) i = r" by simp
    from Suc.IH [OF this] show ?thesis by auto
  next
    case False
    with Suc.prems have "largestLoop clusters n (i + 1) m l = r" by simp
    from Suc.IH [OF this] show ?thesis by auto
  qed
qed

lemma findDominantColor_total:
  assumes "0 < k"
  shows "\<exists>c. findDominantColor colors k = Inr c"
proof (cases "length colors < 2")
  case True
  show ?thesis
  proof (cases "length colors = 0")
    case True
    then have "findDominantColor colors k = Inr (0, 0, 0)"
      by (simp add: findDominantColor_def)
    then show ?thesis by blast
  next
    case False
    with \<open>length colors < 2\<close> have "length colors = 1" by arith
    then have "findDominantColor colors k = Inr (colors ! 0)"
      by (simp add: findDominantColor_def)
    then show ?thesis by blast
  qed
next
  case False
  then have pos: "0 < length colors" by arith
  let ?seeds = "seedLoop colors k (length colors div k) 0 []"
  have "length ?seeds = k" using pos by (rule seeds_length)
  from kmeansLoop_total [OF assms this] obtain cs where
    cs: "kmeansLoop colors k 0 ?seeds = Inr cs" "length cs = k" by blast
  with assms obtain cl where cl: "assignLoop colors cs (replicate k []) = Inr cl"
    using assignLoop_total [of cs "replicate k []" colors] by auto
  have "largestLoop cl k 0 0 0 < length cs"
    using largestLoop_bound [of cl k 0 0 0, OF refl] cs(2) assms by auto
  moreover from False have "length colors \<noteq> 0" "length colors \<noteq> 1" by arith+
  ultimately have "findDominantColor colors k =
      Inr (roundCentroid (cs ! largestLoop cl k 0 0 0))"
    using cs cl by (simp add: findDominantColor_def Let_def)
  then show ?thesis by blast
qed

lemma tileStep_total:
  assumes "0 < k"
  shows "\<exists>out'. tileStep img tw th k (Inr out) p = Inr out' \<and> length out' = length out"
proof -
  obtain ty tx where p: "p = (ty, tx)" by (cases p)
  let ?colors = "tileColors img (nat \<lfloor>dmul (real tx) (ddiv (real (width img)) (real tw))\<rfloor>)
      (nat \<lfloor>dmul (real ty) (ddiv (real (height img)) (real th))\<rfloor>)
      (min (nat \<lfloor>dmul (real (tx + 1)) (ddiv (real (width img)) (real tw))\<rfloor>) (width img))
      (min (nat \<lfloor>dmul (real (ty + 1)) (ddiv (real (height img)) (real th))\<rfloor>) (height img))"
  from findDominantColor_total [OF assms] obtain c where
    c: "findDominantColor ?colors k = Inr c" by blast
  show ?thesis
    unfolding p tileStep.simps Let_def c by simp
qed

lemma foldl_tileStep_total:
  assumes "0 < k"
  shows "\<exists>out'. foldl (tileStep img tw th k) (Inr out) ps = Inr out' \<and> length out' = length out"
proof (induction ps arbitrary: out)
  case Nil
  then show ?case by simp
next
  case (Cons p ps)
  from tileStep_total [OF assms, of img tw th out p] obtain o1 where
    "tileStep img tw th k (Inr out) p = Inr o1" "length o1 = length out" by blast
  with Cons.IH [of o1] show ?case by simp
qed

lemma kCentroid_total:
  assumes "0 < k"
  shows "\<exists>res. kCentroid img tw th k = Inr res \<and> width res = tw \<and> height res = th \<and>
           length (data res) = tw * th * 4"
  using foldl_tileStep_total [OF assms, of img tw th "replicate (tw * th * 4) 0"
      "List.product [0..<th] [0..<tw]"]
  by (auto simp: kCentroid_def)

text \<open>
  The peaks are strictly increasing, so every spacing and hence every median spacing
  is at least 1: the quotients in \<^verbatim>\<open>pixelDetect\<close> never divide by zero.
\<close>

lemma findPeaksLoop_increasing:
  assumes "sorted_wrt (<) peaks" "\<forall>p \<in> set peaks. p < i"
  shows "sorted_wrt (<) (findPeaksLoop d distance h i peaks)"
  using assms
proof (induction d distance h i peaks rule: findPeaksLoop.induct)
  case (1 d distance h i peaks)
  show ?case
  proof (cases "i + 1 < length d")
    case False
    then show ?thesis using "1.prems"(1) by (subst findPeaksLoop.simps) simp
  next
    case True
    let ?peaks = "if d ! i > d ! (i - 1) \<and> d ! i > d ! (i + 1) \<and> d ! i \<ge> h then
             (if (if length peaks = 0 then True else i - last peaks \<ge> distance)
              then peaks @ [i] else peaks)
           else peaks"
    have s: "sorted_wrt (<) ?peaks"
      using "1.prems" by (simp add: sorted_wrt_append)
    have b: "\<forall>p \<in> set ?peaks. p < i + 1"
      using "1.prems"(2) by (auto simp: less_Suc_eq)
    from "1.IH" [OF True s b] True show ?thesis
      by (subst findPeaksLoop.simps) simp
  qed
qed

lemma spacing_positive:
  "sorted_wrt (<) peaks \<Longrightarrow> \<forall>s \<in> set (spacing peaks). 1 \<le> s"
  by (induction peaks rule: spacing.induct) auto

lemma median_ge_one:
  assumes "\<forall>s \<in> set arr. 1 \<le> s"
  shows "1 \<le> median arr"
proof (cases "arr = []")
  case True
  then show ?thesis by (simp add: median_def)
next
  case False
  let ?s = "sort arr"
  have all: "\<And>j. j < length ?s \<Longrightarrow> 1 \<le> ?s ! j"
    using assms by (metis nth_mem set_sort)
  from False have pos: "0 < length ?s" by simp
  then have m: "length ?s div 2 < length ?s" by simp
  then have "1 \<le> ?s ! (length ?s div 2)" by (rule all)
  moreover have "1 \<le> ?s ! (length ?s div 2 - 1)"
    using m by (intro all) simp
  ultimately show ?thesis
    using False by (simp add: median_def Let_def)
qed

lemma pixelDetect_factors_positive:
  "1 \<le> median (spacing (findPeaks d distance h))"
  unfolding findPeaks_def
  by (intro median_ge_one spacing_positive findPeaksLoop_increasing) simp_all

text \<open>
  The difference signal of the image \<open>stripes\<close>.  At the columns 5 and 6 the sums are
  \<open>\<surd>14 + \<surd>114\<close> and \<open>\<surd>17 + \<surd>106\<close>: two different doubles, 14.418735638805252 and
  14.418735766604662, that the \<^verbatim>\<open>Float32Array\<close> holds as the same single.  Neither is
  a peak, the peaks are 1 and 3, and the factor is 2.
\<close>

lemma column_sum_14_114: "f32 (dadd (dadd 0 (dsqrt 14)) (dsqrt 114)) = 3779785 / 262144"
proof -
  have "fl (sqrt 14) = real_of_int 8425463406411593 * 2 powi (1 - 52)"
    by (rule fl_sqrt) (simp_all add: power2_eq_square)
  then have ra: "fl (sqrt 14) = 8425463406411593 / 2251799813685248" by simp
  have "fl (sqrt 114) = real_of_int 6010660704656730 * 2 powi (3 - 52)"
    by (rule fl_sqrt) (simp_all add: power2_eq_square)
  then have rb: "fl (sqrt 114) = 3005330352328365 / 281474976710656" by simp
  have "fl (0 + 8425463406411593 / 2251799813685248)
      = real_of_int 8425463406411593 * 2 powi (1 - 52)"
    by (rule fl_near) simp_all
  then have s1: "fl (0 + 8425463406411593 / 2251799813685248)
      = 8425463406411593 / 2251799813685248" by simp
  have "fl (8425463406411593 / 2251799813685248 + 3005330352328365 / 281474976710656)
      = real_of_int 8117026556259628 * 2 powi (3 - 52)"
    by (rule fl_near) simp_all
  then have s2: "fl (8425463406411593 / 2251799813685248 + 3005330352328365 / 281474976710656)
      = 2029256639064907 / 140737488355328" by simp
  have "f32 (2029256639064907 / 140737488355328) = real_of_int 15119140 * 2 powi (3 - 23)"
    by (rule f32_near) simp_all
  then have st: "f32 (2029256639064907 / 140737488355328) = 3779785 / 262144" by simp
  show ?thesis
    by (simp only: dadd_def dsqrt_def ra rb s1 s2 st)
qed

lemma column_sum_17_106: "f32 (dadd (dadd 0 (dsqrt 17)) (dsqrt 106)) = 3779785 / 262144"
proof -
  have "fl (sqrt 17) = real_of_int 4642204239785223 * 2 powi (2 - 52)"
    by (rule fl_sqrt) (simp_all add: power2_eq_square)
  then have ra: "fl (sqrt 17) = 4642204239785223 / 1125899906842624" by simp
  have "fl (sqrt 106) = real_of_int 5795924508311688 * 2 powi (3 - 52)"
    by (rule fl_sqrt) (simp_all add: power2_eq_square)
  then have rb: "fl (sqrt 106) = 724490563538961 / 70368744177664" by simp
  have "fl (0 + 4642204239785223 / 1125899906842624)
      = real_of_int 4642204239785223 * 2 powi (2 - 52)"
    by (rule fl_near) simp_all
  then have s1: "fl (0 + 4642204239785223 / 1125899906842624)
      = 4642204239785223 / 1125899906842624" by simp
  have "fl (4642204239785223 / 1125899906842624 + 724490563538961 / 70368744177664)
      = real_of_int (if even (8117026628204299 :: int) then 8117026628204299 else 8117026628204299 + 1) * 2 powi (3 - 52)"
    by (rule fl_tie) simp_all
  then have s2: "fl (4642204239785223 / 1125899906842624 + 724490563538961 / 70368744177664)
      = 2029256657051075 / 140737488355328" by simp
  have "f32 (2029256657051075 / 140737488355328) = real_of_int 15119140 * 2 powi (3 - 23)"
    by (rule f32_near) simp_all
  then have st: "f32 (2029256657051075 / 140737488355328) = 3779785 / 262144" by simp
  show ?thesis
    by (simp only: dadd_def dsqrt_def ra rb s1 s2 st)
qed

lemma ddiv_9_2: "ddiv 9 2 = 9 / 2"
proof -
  have "fl (9 / 2) = real_of_int 5066549580791808 * 2 powi (2 - 52)"
    by (rule fl_near) simp_all
  then have v: "fl (9 / 2) = 9 / 2" by simp
  then show ?thesis by (simp add: ddiv_def)
qed

lemma dsqrt_0: "dsqrt 0 = 0"
  by (simp add: dsqrt_def)

lemma dsqrt_25: "dsqrt 25 = 5"
proof -
  have "sqrt 25 = 5" by (rule real_sqrt_unique) simp_all
  then show ?thesis by (simp add: dsqrt_def)
qed

lemma hdiff_stripes:
  "hdiff stripes = [0, 5, 0, 5, 0, 3779785 / 262144, 3779785 / 262144, 0]"
proof -
  have u: "[0..<8] = [0, 1, 2, 3, 4, 5, 6, 7]" "[0..<2] = [0, 1]"
    by (simp_all add: upt_conv_Cons)
  have s: "dadd 0 0 = 0" "dadd 0 5 = 5" "dadd 5 0 = 5"
    by (simp_all add: dadd_def)
  show ?thesis
    by (simp add: hdiff_def stripes_def pixelDiff_def Let_def u s dsqrt_0 dsqrt_25 f32_5
        column_sum_14_114 column_sum_17_106)
qed

lemma findPeaks_stripes:
  "findPeaks [0, 5, 0, 5, 0, 3779785 / 262144, 3779785 / 262144, 0] 1 0 = [1, 3]"
  by (simp add: findPeaks_def findPeaksLoop.simps)

lemma median_spacing_stripes: "median (spacing [1, 3]) = 2"
  by (simp add: median_def)

text \<open>
  A tile bound that the rounding moves: from 15 columns to 11, the double product
  \<open>11 * (15 / 11)\<close> is 14.999999999999998, and the last
  tile is the column 13 alone.
\<close>

lemma last_tile_15_11: "\<lfloor>dmul 11 (ddiv 15 11)\<rfloor> = 14"
proof -
  have "fl (15 / 11) = real_of_int 6141272219141585 * 2 powi (0 - 52)"
    by (rule fl_near) simp_all
  then have q: "fl (15 / 11) = 6141272219141585 / 4503599627370496" by simp
  have "fl (11 * (6141272219141585 / 4503599627370496))
      = real_of_int 8444249301319679 * 2 powi (3 - 52)"
    by (rule fl_near) simp_all
  then have p: "fl (11 * (6141272219141585 / 4503599627370496))
      = 8444249301319679 / 562949953421312" by simp
  have "dmul 11 (ddiv 15 11) = 8444249301319679 / 562949953421312"
    by (simp only: dmul_def ddiv_def q p)
  then show ?thesis by (simp add: floor_eq_iff)
qed

text \<open>
  Claim C7.  The median spacing is 1 whenever an axis has fewer than 2 peaks; a width
  (height) of 1 gives an empty difference signal and hence the factor 1.  For a valid
  image \<^verbatim>\<open>pixelDetect\<close> returns, its factors are the two median spacings of the peaks of
  the difference signals as the \<^verbatim>\<open>Float32Array\<close>s hold them, and the dimensions of the
  downscaled image are \<open>round(W / hFactor)\<close> and \<open>round(H / vFactor)\<close> (\<^verbatim>\<open>Math.round\<close> of
  the quotient of Numbers), each raised to at least 1.
\<close>

theorem grid_detection_dimensions:
  "(length peaks < 2 \<longrightarrow> median (spacing peaks) = 1) \<and>
   (width img = 1 \<longrightarrow> hdiff img = [] \<and> median (spacing (findPeaks (hdiff img) 1 0)) = 1) \<and>
   (height img = 1 \<longrightarrow> vdiff img = [] \<and> median (spacing (findPeaks (vdiff img) 1 0)) = 1) \<and>
   (validImage img \<longrightarrow>
      (\<exists>res. pixelDetect img = Inr res \<and>
         hFactor res = median (spacing (findPeaks (hdiff img) 1 0)) \<and>
         vFactor res = median (spacing (findPeaks (vdiff img) 1 0)) \<and>
         int (width (downscaled res)) = max 1 \<lfloor>ddiv (real (width img)) (hFactor res) + 1 / 2\<rfloor> \<and>
         int (height (downscaled res)) = max 1 \<lfloor>ddiv (real (height img)) (vFactor res) + 1 / 2\<rfloor>))"
proof (intro conjI impI)
  assume "length peaks < 2"
  then show "median (spacing peaks) = 1" by (simp add: spacing_short median_empty)
next
  assume "width img = 1"
  then show "hdiff img = []" by (simp add: hdiff_def)
next
  assume "width img = 1"
  then show "median (spacing (findPeaks (hdiff img) 1 0)) = 1"
    by (simp add: hdiff_def findPeaks_short median_empty)
next
  assume "height img = 1"
  then show "vdiff img = []" by (simp add: vdiff_def)
next
  assume "height img = 1"
  then show "median (spacing (findPeaks (vdiff img) 1 0)) = 1"
    by (simp add: vdiff_def findPeaks_short median_empty)
next
  assume v: "validImage img"
  let ?hM = "median (spacing (findPeaks (hdiff img) 1 0))"
  let ?vM = "median (spacing (findPeaks (vdiff img) 1 0))"
  let ?w = "nat (max 1 \<lfloor>ddiv (real (width img)) ?hM + 1 / 2\<rfloor>)"
  let ?h = "nat (max 1 \<lfloor>ddiv (real (height img)) ?vM + 1 / 2\<rfloor>)"
  from kCentroid_total [of 2 img ?w ?h] obtain d where
    d: "kCentroid img ?w ?h 2 = Inr d" "width d = ?w" "height d = ?h" by auto
  from v d(1) have "pixelDetect img = Inr \<lparr>downscaled = d, hFactor = ?hM, vFactor = ?vM\<rparr>"
    by (simp add: pixelDetect_def validImage_def Let_def)
  with d(2,3) show "\<exists>res. pixelDetect img = Inr res \<and>
         hFactor res = ?hM \<and> vFactor res = ?vM \<and>
         int (width (downscaled res)) = max 1 \<lfloor>ddiv (real (width img)) (hFactor res) + 1 / 2\<rfloor> \<and>
         int (height (downscaled res)) = max 1 \<lfloor>ddiv (real (height img)) (vFactor res) + 1 / 2\<rfloor>"
    by (simp add: le_max_iff_disj)
qed

theorem grid_detection_dimensions_witness:
  "length [3 :: nat] < 2 \<and> median (spacing [3]) = 1 \<and>
   width \<lparr>data = [10, 20, 30, 255], width = 1, height = 1\<rparr> = 1 \<and>
   hdiff \<lparr>data = [10, 20, 30, 255], width = 1, height = 1\<rparr> = [] \<and>
   height \<lparr>data = [10, 20, 30, 255], width = 1, height = 1\<rparr> = 1 \<and>
   vdiff \<lparr>data = [10, 20, 30, 255], width = 1, height = 1\<rparr> = [] \<and>
   validImage \<lparr>data = [10, 20, 30, 255], width = 1, height = 1\<rparr> \<and>
   (\<exists>res. pixelDetect \<lparr>data = [10, 20, 30, 255], width = 1, height = 1\<rparr> = Inr res \<and>
      hFactor res = 1 \<and> vFactor res = 1 \<and>
      width (downscaled res) = 1 \<and> height (downscaled res) = 1) \<and>
   validImage stripes \<and>
   hdiff stripes = [0, 5, 0, 5, 0, 3779785 / 262144, 3779785 / 262144, 0] \<and>
   (\<exists>res. pixelDetect stripes = Inr res \<and>
      hFactor res = 2 \<and> vFactor res = 1 \<and>
      width (downscaled res) = 5 \<and> height (downscaled res) = 2)"
proof -
  let ?img = "\<lparr>data = [10, 20, 30, 255 :: byte], width = 1, height = 1\<rparr>"
  have v: "validImage ?img" by (simp add: validImage_def)
  note t = grid_detection_dimensions [of "[3]" ?img]
  have l: "length [3 :: nat] < 2" and w1: "width ?img = 1" and h1: "height ?img = 1" by simp_all
  from t l have m: "median (spacing [3]) = 1" by blast
  from t w1 have h: "hdiff ?img = []" "median (spacing (findPeaks (hdiff ?img) 1 0)) = 1"
    by blast+
  from t h1 have w: "vdiff ?img = []" "median (spacing (findPeaks (vdiff ?img) 1 0)) = 1"
    by blast+
  from t v obtain res where r: "pixelDetect ?img = Inr res"
    "hFactor res = median (spacing (findPeaks (hdiff ?img) 1 0))"
    "vFactor res = median (spacing (findPeaks (vdiff ?img) 1 0))"
    "int (width (downscaled res)) = max 1 \<lfloor>ddiv (real (width ?img)) (hFactor res) + 1 / 2\<rfloor>"
    "int (height (downscaled res)) = max 1 \<lfloor>ddiv (real (height ?img)) (vFactor res) + 1 / 2\<rfloor>"
    by blast
  from r(2,3) h(2) w(2) have f: "hFactor res = 1" "vFactor res = 1" by simp_all
  from r(4,5) f have "width (downscaled res) = 1" "height (downscaled res) = 1"
    by (simp_all add: ddiv_def)
  with r(1) f have one: "\<exists>res. pixelDetect ?img = Inr res \<and> hFactor res = 1 \<and> vFactor res = 1 \<and>
      width (downscaled res) = 1 \<and> height (downscaled res) = 1"
    by blast
  have v': "validImage stripes" by (simp add: validImage_def stripes_def)
  have d: "width stripes = 9" "height stripes = 2" by (simp_all add: stripes_def)
  from grid_detection_dimensions [of "[3]" stripes] v' obtain res' where r': "pixelDetect stripes = Inr res'"
    "hFactor res' = median (spacing (findPeaks (hdiff stripes) 1 0))"
    "vFactor res' = median (spacing (findPeaks (vdiff stripes) 1 0))"
    "int (width (downscaled res')) = max 1 \<lfloor>ddiv (real (width stripes)) (hFactor res') + 1 / 2\<rfloor>"
    "int (height (downscaled res')) = max 1 \<lfloor>ddiv (real (height stripes)) (vFactor res') + 1 / 2\<rfloor>"
    by blast
  have hf: "hFactor res' = 2"
    unfolding r'(2) hdiff_stripes findPeaks_stripes by (rule median_spacing_stripes)
  have "length (vdiff stripes) < 3" by (simp add: vdiff_def d)
  then have "findPeaks (vdiff stripes) 1 0 = []" by (rule findPeaks_short)
  with r'(3) have vf: "vFactor res' = 1" by (simp add: median_empty)
  have q: "ddiv 2 1 = 2" by (simp add: ddiv_def)
  have "int (width (downscaled res')) = 5"
    unfolding r'(4) hf d by (simp add: ddiv_9_2 floor_eq_iff)
  moreover have "int (height (downscaled res')) = 2"
    unfolding r'(5) vf d by (simp add: q floor_eq_iff)
  ultimately have "width (downscaled res') = 5" "height (downscaled res') = 2" by simp_all
  with r'(1) hf vf have two: "\<exists>res. pixelDetect stripes = Inr res \<and> hFactor res = 2 \<and>
      vFactor res = 1 \<and> width (downscaled res) = 5 \<and> height (downscaled res) = 2"
    by blast
  from m h w v one v' hdiff_stripes two show ?thesis by simp
qed

lemma toUint8Clamp_uint: "toUint8Clamp (ofInt (uint (b :: byte))) = b"
proof -
  have "0 \<le> uint b" "uint b \<le> 255" by (simp_all add: uint_byte_le)
  then have "uint (toUint8Clamp (ofInt (uint b))) = uint b" by (rule toUint8Clamp_byte)
  then show ?thesis by (simp only: word_uint_eq_iff [symmetric])
qed

lemma tileColors_single:
  "tileColors img x y (Suc x) (Suc y) = [pixelAt (data img) ((y * width img + x) * 4)]"
  by (simp add: tileColors_def)

lemma tileStep_same_size:
  assumes "ty < height img" "tx < width img"
  shows "tileStep img (width img) (height img) k (Inr out) (ty, tx)
       = Inr (copyPixel (data img) out (ty * width img + tx))"
proof -
  from assms have w: "ddiv (real (width img)) (real (width img)) = 1"
    and h: "ddiv (real (height img)) (real (height img)) = 1" by (simp_all add: ddiv_def)
  have m: "dmul (real n) 1 = real n" for n
    by (simp add: dmul_def)
  have x2: "min (nat \<lfloor>dmul (real (tx + 1)) 1\<rfloor>) (width img) = Suc tx"
    unfolding m using assms(2) by simp
  have y2: "min (nat \<lfloor>dmul (real (ty + 1)) 1\<rfloor>) (height img) = Suc ty"
    unfolding m using assms(1) by simp
  have x1: "nat \<lfloor>dmul (real tx) 1\<rfloor> = tx" and y1: "nat \<lfloor>dmul (real ty) 1\<rfloor> = ty"
    unfolding m by simp_all
  show ?thesis
    unfolding tileStep.simps Let_def w h x1 y1 x2 y2 tileColors_single
    by (simp add: findDominantColor_def pixelAt_def toUint8Clamp_uint copyPixel_def mult.commute)
qed



lemma length_copyPixel: "length (copyPixel d out p) = length out"
  by (simp add: copyPixel_def)

lemma product_snoc:
  "List.product (xs @ [x]) ys = List.product xs ys @ map (Pair x) ys"
  by (induction xs) simp_all

lemma tile_row:
  "map (\<lambda>(ty, tx). ty * W + tx) (map (Pair H) [0..<W]) = [H * W..<H * W + W]"
proof -
  have "map (\<lambda>(ty, tx). ty * W + tx) (map (Pair H) [0..<W]) = map (\<lambda>tx. tx + H * W) [0..<W]"
    by (simp add: add.commute)
  also have "\<dots> = [H * W..<W + H * W]"
    by (rule map_add_upt)
  finally show ?thesis by (simp only: add.commute)
qed

lemma tile_index_list:
  "map (\<lambda>(ty, tx). ty * W + tx) (List.product [0..<H] [0..<W]) = [0..<H * W]"
proof (induction H)
  case 0
  then show ?case by simp
next
  case (Suc H)
  have "[0..<Suc H * W] = [0..<H * W + W]"
    by (simp only: mult_Suc add.commute)
  also have "\<dots> = [0..<H * W] @ [H * W..<H * W + W]"
    by (rule upt_add_eq_append) simp
  finally have split: "[0..<Suc H * W] = [0..<H * W] @ [H * W..<H * W + W]" .
  have "List.product [0..<Suc H] [0..<W] = List.product [0..<H] [0..<W] @ map (Pair H) [0..<W]"
    by (simp only: upt_Suc_append [OF le0] product_snoc)
  then show ?case
    by (simp only: map_append Suc tile_row split)
qed


lemma foldl_tileStep_same_size:
  assumes "\<forall>(ty, tx) \<in> set ps. ty < height img \<and> tx < width img"
  shows "foldl (tileStep img (width img) (height img) k) (Inr out) ps
       = Inr (foldl (copyPixel (data img)) out (map (\<lambda>(ty, tx). ty * width img + tx) ps))"
  using assms
proof (induction ps arbitrary: out)
  case Nil
  then show ?case by simp
next
  case (Cons p ps)
  obtain ty tx where p: "p = (ty, tx)" by (cases p)
  with Cons.prems have "ty < height img" "tx < width img" by auto
  then have "tileStep img (width img) (height img) k (Inr out) p
      = Inr (copyPixel (data img) out (ty * width img + tx))"
    unfolding p by (rule tileStep_same_size)
  moreover from Cons.prems have "\<forall>(ty, tx) \<in> set ps. ty < height img \<and> tx < width img"
    by simp
  ultimately show ?case
    using Cons.IH [of "copyPixel (data img) out (ty * width img + tx)"] by (simp add: p)
qed

lemma length_foldl_copyPixel: "length (foldl (copyPixel d) out ps) = length out"
  by (induction ps arbitrary: out) (simp_all add: length_copyPixel)

lemma foldl_copyPixel_nth:
  assumes "4 * n \<le> length out" "p < n" "c < 4"
  shows "foldl (copyPixel d) out [0..<n] ! (4 * p + c) = (if c = 3 then 255 else d ! (4 * p + c))"
  using assms(1,2)
proof (induction n)
  case 0
  then show ?case by simp
next
  case (Suc n)
  let ?prev = "foldl (copyPixel d) out [0..<n]"
  have l: "length ?prev = length out" by (rule length_foldl_copyPixel)
  have step: "foldl (copyPixel d) out [0..<Suc n] = copyPixel d ?prev n" by simp
  show ?case
  proof (cases "p = n")
    case True
    from assms(3) consider "c = 0" | "c = 1" | "c = 2" | "c = 3" by linarith
    then show ?thesis
      using Suc.prems(1) l True unfolding step copyPixel_def by cases simp_all
  next
    case False
    with Suc.prems have pn: "p < n" by simp
    then have "4 * p + c < 4 * n" using assms(3) by simp
    then have "copyPixel d ?prev n ! (4 * p + c) = ?prev ! (4 * p + c)"
      unfolding copyPixel_def by simp
    with Suc.IH pn Suc.prems(1) show ?thesis unfolding step by simp
  qed
qed

text \<open>
  Claim C5.  For a valid buffer of dimensions \<open>W \<times> H\<close> and every \<open>k\<close>, \<^verbatim>\<open>kCentroid\<close> with
  the target dimensions \<open>W\<close> and \<open>H\<close> returns an image of the same dimensions in which
  the RGB triple of every pixel is that of the source pixel at the same position.
\<close>

theorem kCentroid_same_size:
  assumes "validImage img" "p < width img * height img"
  shows "\<exists>out. kCentroid img (width img) (height img) k = Inr out \<and>
           width out = width img \<and> height out = height img \<and>
           pixelAt (data out) (4 * p) = pixelAt (data img) (4 * p)"
proof -
  let ?W = "width img" and ?H = "height img"
  let ?ps = "List.product [0..<?H] [0..<?W]"
  let ?out = "foldl (copyPixel (data img)) (replicate (?W * ?H * 4) 0) [0..<?H * ?W]"
  have "\<forall>(ty, tx) \<in> set ?ps. ty < ?H \<and> tx < ?W" by auto
  from foldl_tileStep_same_size [OF this, of k "replicate (?W * ?H * 4) 0"]
  have f: "foldl (tileStep img ?W ?H k) (Inr (replicate (?W * ?H * 4) 0)) ?ps = Inr ?out"
    by (simp only: tile_index_list)
  have p: "p < ?H * ?W" using assms(2) by (simp add: mult.commute)
  have len: "4 * (?H * ?W) \<le> length (replicate (?W * ?H * 4) (0 :: byte))" by simp
  have "?out ! (4 * p + 0) = data img ! (4 * p + 0)" "?out ! (4 * p + 1) = data img ! (4 * p + 1)"
    "?out ! (4 * p + 2) = data img ! (4 * p + 2)"
    using foldl_copyPixel_nth [OF len p, of 0 "data img"]
      foldl_copyPixel_nth [OF len p, of 1 "data img"]
      foldl_copyPixel_nth [OF len p, of 2 "data img"] by simp_all
  then have "pixelAt ?out (4 * p) = pixelAt (data img) (4 * p)"
    by (simp add: pixelAt_def)
  with f show ?thesis by (simp add: kCentroid_def)
qed

theorem kCentroid_same_size_witness:
  "validImage \<lparr>data = [10, 20, 30, 255, 200, 100, 0, 7], width = 2, height = 1\<rparr> \<and>
   (1 :: nat) < width \<lparr>data = [10, 20, 30, 255, 200, 100, 0, 7], width = 2, height = 1\<rparr> *
        height \<lparr>data = [10, 20, 30, 255, 200, 100, 0, 7], width = 2, height = 1\<rparr> \<and>
   (\<exists>out. kCentroid \<lparr>data = [10, 20, 30, 255, 200, 100, 0, 7], width = 2, height = 1\<rparr> 2 1 2 = Inr out \<and>
      width out = 2 \<and> height out = 1 \<and> pixelAt (data out) (4 * 1) = (200, 100, 0))"
proof -
  let ?img = "\<lparr>data = [10, 20, 30, 255, 200, 100, 0, 7 :: byte], width = 2, height = 1\<rparr>"
  have v: "validImage ?img" by (simp add: validImage_def)
  have p: "(1 :: nat) < width ?img * height ?img" by simp
  from kCentroid_same_size [OF v p, of 2] v p show ?thesis
    by (simp add: pixelAt_def)
qed

section \<open>Properties of the dominant colour of a tile\<close>














































end
